theory Spec2Isabelle
  imports Main "HOL-Library.Sublist"
begin

section \<open>Static data API of the video catalogue (\<open>src/lib/staticData.ts\<close>)\<close>

text \<open>
  The module fetches pre-generated JSON files, keeps them in a bounded cache, and
  assembles listing, search and page results from them. This theory embeds the module
  function by function and states the properties of its caches, paths, search results and
  loaders as theorems.

  Conventions of the embedding.
  \<^item> A JavaScript string is a sequence of UTF-16 code units. The model writes each code
    unit as the one, two or three bytes of its UTF-8 form, a surrogate code unit included
    (the bytes \<open>ED A0..BF 80..BF\<close>), and a string as the concatenation of these bytes
    (\<open>string\<close>). Text without supplementary characters is its UTF-8 encoding, a
    supplementary character is its two surrogates, and a string with an unpaired surrogate
    is a value like any other. The code units of a string can be read off its bytes, so
    \<open>includes\<close> and \<open>trim\<close> on bytes are those on code units. A byte string that is
    not of this form stands for no JavaScript string; the functions are defined, and the
    theorems hold, for it as well.
  \<^item> A JavaScript number that the module uses as a count, page number or page size is an
    \<open>int\<close>; the only non-finite results the module can compute from integers
    (\<open>Math.ceil\<close> of a division by zero) are values of \<open>jsnum\<close>.
  \<^item> An optional property is an \<open>option\<close>; \<open>undefined\<close> is \<open>None\<close>.
  \<^item> The module-level variables \<open>cache\<close>, \<open>indexCache\<close> and \<open>searchCache\<close> are the
    fields of a \<open>state\<close> record that every function takes and returns. The field
    \<open>requests\<close> is an observation added by the model: the URLs handed to the
    platform's \<open>fetch\<close>, in order.
  \<^item> A thrown exception is the \<open>Inl\<close> of a sum; \<open>try/catch\<close> is a case on it.
  \<^item> The platform (execution context, working directory, what \<open>fetch\<close> answers,
    \<open>String.prototype.toLowerCase\<close>) is the record \<open>env\<close>.
  \<^item> An \<open>async\<close> function whose result is awaited runs to its end before the caller goes
    on. Where the source starts two calls together (\<open>Promise.all\<close>), the model runs each call
    up to its suspension and lets a Boolean decide which one finishes first.
\<close>

subsection \<open>Types\<close>

record video =
  v_id :: string
  v_title :: string
  v_publishedAt :: string
  v_duration :: string
  v_thumbnail :: string
  v_viewCount :: string
  v_playlistId :: "string option"
  v_playlistName :: "string option"
  v_category :: "string option"

record nav =
  nav_prev :: "string option"
  nav_next :: "string option"
  nav_index :: int
  nav_total :: int

record video_details = video +
  vd_description :: string
  vd_likeCount :: "string option"
  vd_commentCount :: "string option"
  vd_tags :: "string list option"
  vd_nav :: nav

record playlist =
  pl_id :: string
  pl_name :: string
  pl_category :: string
  pl_videoCount :: int

record stats =
  totalVideos :: int
  totalPlaylists :: int
  categoriesCount :: int
  lastUpdated :: string

record pagination =
  pg_all :: int
  byCategory :: "(string \<times> int) list"
  byPlaylist :: "(string \<times> int) list"

record site_index =
  si_stats :: stats
  si_categories :: "string list"
  si_playlists :: "playlist list"
  si_pagination :: pagination

datatype jsnum = Num int | Infinity | NaN

record video_page =
  items :: "video list"
  total :: int
  page :: int
  pageSize :: int
  totalPages :: jsnum

record search_entry =
  e_id :: string
  e_t :: string
  e_c :: "string option"
  e_p :: "string option"
  e_d :: "string option"
  e_th :: "string option"
  e_vc :: "string option"
  e_pa :: "string option"
  e_pn :: "string option"

text \<open>
  The parsed body of a data file. The cache stores it as \<open>unknown\<close> and the call sites
  cast it unchecked (\<open>as T\<close>); the constructors are the shapes the file layout has:
  the site index, a page fragment, a video detail, the search manifest
  \<open>{ totalChunks }\<close>, a search chunk \<open>{ entries }\<close>, and a bare array of entries.
  Each is an object or an array, hence truthy.
\<close>

datatype json =
    JIndex site_index
  | JPage video_page
  | JVideo video_details
  | JManifest int
  | JChunk "search_entry list"
  | JEntries "search_entry list"

text \<open>
  What the platform's \<open>fetch\<close> does with a URL: a response with \<open>ok\<close> and a body that
  parses, a response whose \<open>ok\<close> is false (with its status), a rejected promise, or an
  \<open>ok\<close> response whose body \<open>res.json()\<close> rejects.
\<close>

datatype response = Ok json | NotOk int | Rejected | Unparsable

datatype error =
    Failed_to_fetch string int
  | Fetch_rejected
  | Json_syntax_error
  | Type_error
  | URI_error

record env =
  isServer :: bool
  cwd :: string
  net :: "string \<Rightarrow> response"
  toLowerCase :: "string \<Rightarrow> string"

record state =
  cache :: "(string \<times> json) list"
  indexCache :: "json option"
  searchCache :: "(string \<times> json) list"
  requests :: "string list"

definition init :: state where
  "init = \<lparr>cache = [], indexCache = None, searchCache = [], requests = []\<rparr>"

subsection \<open>The JavaScript \<open>Map\<close>\<close>

text \<open>
  A \<open>Map\<close> iterates in insertion order, \<open>set\<close> on a key that is present replaces the
  value where it stands, and \<open>delete\<close> removes the entry: an association list with the
  oldest entry first.
\<close>

fun Map_set :: "'k \<Rightarrow> 'v \<Rightarrow> ('k \<times> 'v) list \<Rightarrow> ('k \<times> 'v) list" where
  "Map_set k v [] = [(k, v)]"
| "Map_set k v ((k', v') # m) = (if k' = k then (k, v) # m else (k', v') # Map_set k v m)"

definition Map_delete :: "'k \<Rightarrow> ('k \<times> 'v) list \<Rightarrow> ('k \<times> 'v) list" where
  "Map_delete k m = filter (\<lambda>kv. fst kv \<noteq> k) m"

definition Map_get :: "('k \<times> 'v) list \<Rightarrow> 'k \<Rightarrow> 'v option" where
  "Map_get m k = map_of m k"

definition Map_keys :: "('k \<times> 'v) list \<Rightarrow> 'k list" where
  "Map_keys m = map fst m"

subsection \<open>Fetch helpers\<close>

definition MAX_CACHE_SIZE :: nat where
  "MAX_CACHE_SIZE = 100"

text \<open>
  \<open>cacheSet\<close>: when the cache is full, the first key of the iteration order is deleted,
  provided it is truthy (\<open>if (firstKey)\<close>: not \<open>undefined\<close> and not the empty string);
  then the entry is set.
\<close>

definition cacheSet :: "string \<Rightarrow> json \<Rightarrow> (string \<times> json) list \<Rightarrow> (string \<times> json) list" where
  "cacheSet key val c =
     Map_set key val
       (if length c \<ge> MAX_CACHE_SIZE
        then (case Map_keys c of
                [] \<Rightarrow> c
              | firstKey # _ \<Rightarrow> if firstKey \<noteq> [] then Map_delete firstKey c else c)
        else c)"

definition url_of :: "env \<Rightarrow> string \<Rightarrow> string" where
  "url_of e path =
     (if isServer e then ''file://'' @ cwd e @ ''/public/data'' @ path
      else ''/data'' @ path)"

text \<open>
  \<open>fetchJson\<close> runs in two parts, with a suspension between them. The first part runs
  at the call: the cache lookup and, on a miss, the call of \<open>fetch\<close>. The second part
  runs when the response has arrived: the \<open>ok\<close> test, the parse, and \<open>cacheSet\<close>.
  Both branches of the source (server and client) differ in the URL only.
\<close>

datatype pending = Hit json | Awaiting response

definition fetchJson_begin :: "env \<Rightarrow> string \<Rightarrow> state \<Rightarrow> pending \<times> state" where
  "fetchJson_begin e path s =
     (case Map_get (cache s) path of
        Some v \<Rightarrow> (Hit v, s)
      | None \<Rightarrow> (Awaiting (net e (url_of e path)),
                 s\<lparr>requests := requests s @ [url_of e path]\<rparr>))"

definition fetchJson_end :: "string \<Rightarrow> pending \<Rightarrow> state \<Rightarrow> (error + json) \<times> state" where
  "fetchJson_end path p s =
     (case p of
        Hit v \<Rightarrow> (Inr v, s)
      | Awaiting (Ok data) \<Rightarrow> (Inr data, s\<lparr>cache := cacheSet path data (cache s)\<rparr>)
      | Awaiting (NotOk status) \<Rightarrow> (Inl (Failed_to_fetch path status), s)
      | Awaiting Rejected \<Rightarrow> (Inl Fetch_rejected, s)
      | Awaiting Unparsable \<Rightarrow> (Inl Json_syntax_error, s))"

text \<open>An awaited call of \<open>fetchJson\<close>: nothing else runs between the two parts.\<close>

definition fetchJson :: "env \<Rightarrow> string \<Rightarrow> state \<Rightarrow> (error + json) \<times> state" where
  "fetchJson e path s = (case fetchJson_begin e path s of (p, s') \<Rightarrow> fetchJson_end path p s')"

text \<open>
  A sequence of completed fetches, in the order in which they complete: however the calls
  that started them interleave, each completion is one call of \<open>cacheSet\<close>, and nothing
  else writes the cache.
\<close>

definition completions :: "(string \<times> json) list \<Rightarrow> (string \<times> json) list \<Rightarrow> (string \<times> json) list" where
  "completions kvs c = foldl (\<lambda>c kv. cacheSet (fst kv) (snd kv) c) c kvs"

text \<open>A sequence of awaited loads, one after the other.\<close>

fun loads :: "env \<Rightarrow> string list \<Rightarrow> state \<Rightarrow> state" where
  "loads e [] s = s"
| "loads e (p # ps) s = loads e ps (snd (fetchJson e p s))"

subsection \<open>Strings and numbers of the platform\<close>

text \<open>Truthiness of an optional string: \<open>undefined\<close> and \<open>""\<close> are falsy.\<close>

definition truthy :: "string option \<Rightarrow> bool" where
  "truthy x = (case x of None \<Rightarrow> False | Some v \<Rightarrow> v \<noteq> [])"

text \<open>\<open>x || d\<close> on an optional string.\<close>

definition or_else :: "string option \<Rightarrow> string \<Rightarrow> string" where
  "or_else x d = (case x of None \<Rightarrow> d | Some v \<Rightarrow> if v \<noteq> [] then v else d)"

text \<open>
  An integer in a template literal: its decimal digits, with a minus sign when negative
  (what \<open>Number::toString\<close> gives for an integer of magnitude below \<open>10^21\<close>; from
  there on JavaScript prints an exponent, which \<open>show_int\<close> does not).
\<close>

fun show_nat :: "nat \<Rightarrow> string" where
  "show_nat n =
     (if n < 10 then [char_of (48 + n)] else show_nat (n div 10) @ [char_of (48 + n mod 10)])"

declare show_nat.simps [simp del]

definition show_int :: "int \<Rightarrow> string" where
  "show_int i = (if i < 0 then ''-'' @ show_nat (nat (- i)) else show_nat (nat i))"

text \<open>
  A surrogate code unit at the head of a string, bytes \<open>ED b c\<close> with \<open>b\<close> from \<open>A0\<close> on:
  whether it is a high surrogate (\<open>b\<close> below \<open>B0\<close>), the upper four and the lower six of
  its ten payload bits, and the rest of the string.
\<close>

definition surrogateAt :: "string \<Rightarrow> (bool \<times> nat \<times> nat \<times> string) option" where
  "surrogateAt s =
     (case s of
        a # b # c # rest \<Rightarrow>
          if a = CHR 0xED \<and> (0xA0::nat) \<le> of_char b
          then Some (of_char b < (0xB0::nat), of_char b mod 16, of_char c mod 64, rest)
          else None
      | _ \<Rightarrow> None)"

text \<open>
  \<open>encodeURIComponent\<close>: an unreserved character stands for itself; any other code point
  is written in UTF-8 and each byte becomes \<open>%XX\<close> with upper-case hexadecimal digits. A
  code unit that is not a surrogate is its own code point, and its UTF-8 bytes are the
  bytes it has in the model. A high surrogate followed by a low surrogate is one code
  point \<open>0x10000 + h * 0x400 + l\<close> of four UTF-8 bytes (\<open>percentPair\<close>, from the two
  parts of \<open>h\<close> and the two parts of \<open>l\<close>). A surrogate without its partner makes the
  function throw \<open>URIError\<close>.
\<close>

definition uriUnreserved :: string where
  "uriUnreserved =
     ''ABCDEFGHIJKLMNOPQRSTUVWXYZabcdefghijklmnopqrstuvwxyz0123456789-_.!~*()'' @ [CHR 0x27]"

definition hexDigit :: "nat \<Rightarrow> char" where
  "hexDigit n = ''0123456789ABCDEF'' ! (n mod 16)"

definition percent :: "char \<Rightarrow> string" where
  "percent c = [CHR ''%'', hexDigit (of_char c div 16), hexDigit (of_char c mod 16)]"

definition percentPair :: "nat \<Rightarrow> nat \<Rightarrow> nat \<Rightarrow> nat \<Rightarrow> string" where
  "percentPair w x y z =
     concat (map (\<lambda>n. percent (char_of n))
       [0xF0 + (w + 1) div 4, 0x80 + (w + 1) mod 4 * 16 + x div 4, 0x80 + x mod 4 * 16 + y,
        0x80 + z])"

function encodeURIComponent :: "string \<Rightarrow> error + string" where
  "encodeURIComponent s =
     (case s of
        [] \<Rightarrow> Inr []
      | c # cs \<Rightarrow>
          (case surrogateAt s of
             None \<Rightarrow>
               (case encodeURIComponent cs of
                  Inl err \<Rightarrow> Inl err
                | Inr r \<Rightarrow> Inr ((if c \<in> set uriUnreserved then [c] else percent c) @ r))
           | Some (high, w, x, rest) \<Rightarrow>
               (case surrogateAt rest of
                  None \<Rightarrow> Inl URI_error
                | Some (high', y, z, rest') \<Rightarrow>
                    if high \<and> \<not> high'
                    then (case encodeURIComponent rest' of
                            Inl err \<Rightarrow> Inl err
                          | Inr r \<Rightarrow> Inr (percentPair w x y z @ r))
                    else Inl URI_error)))"
  by pat_completeness auto
termination
  by (relation "measure length") (auto simp: surrogateAt_def split: list.splits if_splits)

declare encodeURIComponent.simps [simp del]

text \<open>
  \<open>String.prototype.isWellFormed\<close>: no surrogate stands without its partner.
\<close>

function isWellFormed :: "string \<Rightarrow> bool" where
  "isWellFormed s =
     (case s of
        [] \<Rightarrow> True
      | c # cs \<Rightarrow>
          (case surrogateAt s of
             None \<Rightarrow> isWellFormed cs
           | Some (high, w, x, rest) \<Rightarrow>
               (case surrogateAt rest of
                  None \<Rightarrow> False
                | Some (high', y, z, rest') \<Rightarrow> high \<and> \<not> high' \<and> isWellFormed rest')))"
  by pat_completeness auto
termination
  by (relation "measure length") (auto simp: surrogateAt_def split: list.splits if_splits)

declare isWellFormed.simps [simp del]

text \<open>
  \<open>String.prototype.trim\<close> removes white space and line terminators from both ends.
  These are their bytes: U+0009 to U+000D, U+0020, U+00A0, U+1680, U+2000 to
  U+200A, U+2028, U+2029, U+202F, U+205F, U+3000 and U+FEFF.
\<close>

definition whiteSpace :: "string list" where
  "whiteSpace =
     [[CHR 0x09], [CHR 0x0A], [CHR 0x0B], [CHR 0x0C], [CHR 0x0D], [CHR 0x20],
      [CHR 0xC2, CHR 0xA0],
      [CHR 0xE1, CHR 0x9A, CHR 0x80],
      [CHR 0xE2, CHR 0x80, CHR 0x80], [CHR 0xE2, CHR 0x80, CHR 0x81],
      [CHR 0xE2, CHR 0x80, CHR 0x82], [CHR 0xE2, CHR 0x80, CHR 0x83],
      [CHR 0xE2, CHR 0x80, CHR 0x84], [CHR 0xE2, CHR 0x80, CHR 0x85],
      [CHR 0xE2, CHR 0x80, CHR 0x86], [CHR 0xE2, CHR 0x80, CHR 0x87],
      [CHR 0xE2, CHR 0x80, CHR 0x88], [CHR 0xE2, CHR 0x80, CHR 0x89],
      [CHR 0xE2, CHR 0x80, CHR 0x8A],
      [CHR 0xE2, CHR 0x80, CHR 0xA8], [CHR 0xE2, CHR 0x80, CHR 0xA9],
      [CHR 0xE2, CHR 0x80, CHR 0xAF],
      [CHR 0xE2, CHR 0x81, CHR 0x9F],
      [CHR 0xE3, CHR 0x80, CHR 0x80],
      [CHR 0xEF, CHR 0xBB, CHR 0xBF]]"

function trimStart :: "string \<Rightarrow> string" where
  "trimStart s =
     (case find (\<lambda>w. prefix w s) whiteSpace of
        None \<Rightarrow> s
      | Some w \<Rightarrow> trimStart (drop (length w) s))"
  by pat_completeness auto
termination
proof (relation "measure length")
  show "wf (measure length)" by simp
next
  fix s w
  assume "find (\<lambda>w. prefix w s) whiteSpace = Some w"
  then have "w \<in> set whiteSpace" and "prefix w s"
    by (auto simp: find_Some_iff)
  then have "w \<noteq> []" and "length w \<le> length s"
    by (auto simp: whiteSpace_def prefix_length_le)
  then show "(drop (length w) s, s) \<in> measure length"
    by (cases w) auto
qed

function trimEnd :: "string \<Rightarrow> string" where
  "trimEnd s =
     (case find (\<lambda>w. suffix w s) whiteSpace of
        None \<Rightarrow> s
      | Some w \<Rightarrow> trimEnd (take (length s - length w) s))"
  by pat_completeness auto
termination
proof (relation "measure length")
  show "wf (measure length)" by simp
next
  fix s w
  assume "find (\<lambda>w. suffix w s) whiteSpace = Some w"
  then have "w \<in> set whiteSpace" and "suffix w s"
    by (auto simp: find_Some_iff)
  then have "w \<noteq> []" and "length w \<le> length s"
    by (auto simp: whiteSpace_def suffix_length_le)
  then show "(take (length s - length w) s, s) \<in> measure length"
    by (cases w) auto
qed

declare trimStart.simps [simp del] trimEnd.simps [simp del]

definition trim :: "string \<Rightarrow> string" where
  "trim s = trimEnd (trimStart s)"

text \<open>\<open>s.includes(q)\<close>: \<open>q\<close> occurs in \<open>s\<close> as a contiguous run.\<close>

definition js_includes :: "string \<Rightarrow> string \<Rightarrow> bool" where
  "js_includes s q = sublist q s"

text \<open>
  \<open>Math.ceil(a / b)\<close> for an integer \<open>a \<ge> 0\<close> (a length) and an integer \<open>b\<close>: the
  division by zero gives \<open>NaN\<close> for \<open>0 / 0\<close> and \<open>Infinity\<close> otherwise. The negative zero
  that JavaScript gives for a negative \<open>b\<close> and a quotient above \<open>-1\<close> is \<open>Num 0\<close>.
\<close>

definition ceilDiv :: "int \<Rightarrow> int \<Rightarrow> jsnum" where
  "ceilDiv a b = (if b = 0 then (if a = 0 then NaN else Infinity) else Num (- ((- a) div b)))"

text \<open>
  \<open>Array.prototype.slice(start, end)\<close>: a negative index counts from the end, both
  indices are clamped to the array, and an empty range gives the empty array.
\<close>

definition slice :: "'a list \<Rightarrow> int \<Rightarrow> int \<Rightarrow> 'a list" where
  "slice xs start end =
     (let len = int (length xs);
          k = (if start < 0 then max (len + start) 0 else min start len);
          final = (if end < 0 then max (len + end) 0 else min end len)
      in take (nat (final - k)) (drop (nat k) xs))"

subsection \<open>Public API: index, listing, video\<close>

definition getIndex :: "env \<Rightarrow> state \<Rightarrow> (error + json) \<times> state" where
  "getIndex e s =
     (case indexCache s of
        Some idx \<Rightarrow> (Inr idx, s)
      | None \<Rightarrow>
          (case fetchJson e ''/index.json'' s of
             (Inl err, s') \<Rightarrow> (Inl err, s')
           | (Inr idx, s') \<Rightarrow> (Inr idx, s'\<lparr>indexCache := Some idx\<rparr>)))"

datatype sort_mode = Date | Oldest | Views

definition sort_str :: "sort_mode \<Rightarrow> string" where
  "sort_str m = (case m of Date \<Rightarrow> ''date'' | Oldest \<Rightarrow> ''oldest'' | Views \<Rightarrow> ''views'')"

record options =
  o_page :: "int option"
  o_sort :: "sort_mode option"
  o_category :: "string option"
  o_playlistId :: "string option"

definition page_or_1 :: "int option \<Rightarrow> int" where
  "page_or_1 p = (case p of None \<Rightarrow> 1 | Some n \<Rightarrow> n)"

definition sort_or_date :: "sort_mode option \<Rightarrow> sort_mode" where
  "sort_or_date m = (case m of None \<Rightarrow> Date | Some x \<Rightarrow> x)"

text \<open>
  The path that \<open>getVideos\<close> builds before its \<open>try\<close> block; the \<open>URIError\<close> of
  \<open>encodeURIComponent\<close> is thrown there.
\<close>

definition getVideos_path :: "options \<Rightarrow> error + string" where
  "getVideos_path opts =
     (let page = page_or_1 (o_page opts);
          sort = sort_or_date (o_sort opts);
          category = o_category opts;
          playlistId = o_playlistId opts
      in if truthy playlistId
         then Inr (''/playlists/'' @ or_else playlistId [] @ ''/'' @ sort_str sort
                     @ ''/page-'' @ show_int page @ ''.json'')
         else if truthy category \<and> category \<noteq> Some ''all'' \<and> category \<noteq> Some ''channel''
         then (case encodeURIComponent (or_else category []) of
                 Inl err \<Rightarrow> Inl err
               | Inr enc \<Rightarrow>
                   Inr (''/categories/'' @ enc @ ''/'' @ sort_str sort
                          @ ''/page-'' @ show_int page @ ''.json''))
         else Inr (''/videos/'' @ sort_str sort @ ''/page-'' @ show_int page @ ''.json''))"

text \<open>
  \<open>getVideos\<close> returns the fetched body as it is (the cast to \<open>VideoPage\<close> is unchecked), or
  the empty page of the \<open>catch\<close> block; the same holds for \<open>getIndex\<close> and \<open>getVideo\<close>.
  An exception thrown while the path is built is outside the \<open>try\<close> block and is the
  result of the call.
\<close>

definition emptyPage :: "int \<Rightarrow> int \<Rightarrow> video_page" where
  "emptyPage pg sz = \<lparr>items = [], total = 0, page = pg, pageSize = sz, totalPages = Num 0\<rparr>"

definition getVideos :: "env \<Rightarrow> options \<Rightarrow> state \<Rightarrow> (error + json) \<times> state" where
  "getVideos e opts s =
     (case getVideos_path opts of
        Inl err \<Rightarrow> (Inl err, s)
      | Inr path \<Rightarrow>
          (case fetchJson e path s of
             (Inr data, s') \<Rightarrow> (Inr data, s')
           | (Inl _, s') \<Rightarrow> (Inr (JPage (emptyPage (page_or_1 (o_page opts)) 24)), s')))"

definition getVideo_path :: "string \<Rightarrow> string" where
  "getVideo_path vid = ''/video/'' @ vid @ ''.json''"

definition getVideo :: "env \<Rightarrow> string \<Rightarrow> state \<Rightarrow> json option \<times> state" where
  "getVideo e vid s =
     (case fetchJson e (getVideo_path vid) s of
        (Inr data, s') \<Rightarrow> (Some data, s')
      | (Inl _, s') \<Rightarrow> (None, s'))"

subsection \<open>Search\<close>

text \<open>
  The path of a category or playlist scope, or \<open>None\<close> for the global scope, whose
  entries are kept under the key \<open>__all__\<close>. The \<open>URIError\<close> of \<open>encodeURIComponent\<close> is
  thrown outside every \<open>try\<close> block of \<open>getSearchEntries\<close>.
\<close>

definition scope_path :: "string option \<Rightarrow> string option \<Rightarrow> error + string option" where
  "scope_path category playlistId =
     (if truthy playlistId
      then Inr (Some (''/search/playlist/'' @ or_else playlistId [] @ ''.json''))
      else if truthy category \<and> category \<noteq> Some ''all'' \<and> category \<noteq> Some ''channel''
      then (case encodeURIComponent (or_else category []) of
              Inl err \<Rightarrow> Inl err
            | Inr enc \<Rightarrow> Inr (Some (''/search/category/'' @ enc @ ''.json'')))
      else Inr None)"

definition chunk_path :: "int \<Rightarrow> string" where
  "chunk_path i = ''/search/chunk-'' @ show_int i @ ''.json''"

text \<open>
  The loop \<open>for (let i = 1; i <= manifest.totalChunks; i++)\<close>, started at \<open>i\<close> with the
  entries collected so far. A chunk without an \<open>entries\<close> array makes the spread throw.
\<close>

function loadChunks ::
  "env \<Rightarrow> int \<Rightarrow> int \<Rightarrow> search_entry list \<Rightarrow> state \<Rightarrow> (error + search_entry list) \<times> state"
where
  "loadChunks e i totalChunks entries s =
     (if i \<le> totalChunks
      then (case fetchJson e (chunk_path i) s of
              (Inl err, s') \<Rightarrow> (Inl err, s')
            | (Inr (JChunk es), s') \<Rightarrow> loadChunks e (i + 1) totalChunks (entries @ es) s'
            | (Inr _, s') \<Rightarrow> (Inl Type_error, s'))
      else (Inr entries, s))"
  by pat_completeness auto
termination
  by (relation "measure (\<lambda>(e, i, totalChunks, entries, s). nat (totalChunks + 1 - i))") auto

declare loadChunks.simps [simp del]

text \<open>
  \<open>manifest.totalChunks\<close> is \<open>undefined\<close> on a body of another shape, and the loop
  condition \<open>1 <= undefined\<close> is false.
\<close>

definition getSearchEntries ::
  "env \<Rightarrow> string option \<Rightarrow> string option \<Rightarrow> state \<Rightarrow> (error + json) \<times> state"
where
  "getSearchEntries e category playlistId s =
     (case scope_path category playlistId of
        Inl err \<Rightarrow> (Inl err, s)
      | Inr None \<Rightarrow>
          (case fetchJson e ''/search/manifest.json'' s of
             (Inl err, s') \<Rightarrow> (Inl err, s')
           | (Inr manifest, s') \<Rightarrow>
               (case Map_get (searchCache s') ''__all__'' of
                  Some entries \<Rightarrow> (Inr entries, s')
                | None \<Rightarrow>
                    (case (case manifest of
                             JManifest totalChunks \<Rightarrow> loadChunks e 1 totalChunks [] s'
                           | _ \<Rightarrow> (Inr [], s')) of
                       (Inl err, s'') \<Rightarrow> (Inl err, s'')
                     | (Inr entries, s'') \<Rightarrow>
                         (Inr (JEntries entries),
                          s''\<lparr>searchCache :=
                                Map_set ''__all__'' (JEntries entries) (searchCache s'')\<rparr>))))
      | Inr (Some path) \<Rightarrow>
          (case Map_get (searchCache s) path of
             Some entries \<Rightarrow> (Inr entries, s)
           | None \<Rightarrow>
               (case fetchJson e path s of
                  (Inr entries, s') \<Rightarrow>
                    (Inr entries, s'\<lparr>searchCache := Map_set path entries (searchCache s')\<rparr>)
                | (Inl _, s') \<Rightarrow> (Inr (JEntries []), s'))))"

record search_options =
  so_category :: "string option"
  so_playlistId :: "string option"
  so_page :: "int option"
  so_pageSize :: "int option"

definition pageSize_or_24 :: "int option \<Rightarrow> int" where
  "pageSize_or_24 p = (case p of None \<Rightarrow> 24 | Some n \<Rightarrow> n)"

definition toVideo :: "search_entry \<Rightarrow> video" where
  "toVideo m =
     \<lparr>v_id = e_id m, v_title = e_t m,
      v_publishedAt = or_else (e_pa m) [],
      v_duration = or_else (e_d m) [],
      v_thumbnail = or_else (e_th m) [],
      v_viewCount = or_else (e_vc m) ''0'',
      v_playlistId = e_p m, v_playlistName = e_pn m, v_category = e_c m\<rparr>"

definition matching :: "env \<Rightarrow> string \<Rightarrow> search_entry list \<Rightarrow> search_entry list" where
  "matching e query entries =
     (let q = toLowerCase e query
      in filter (\<lambda>x. js_includes (toLowerCase e (e_t x)) q) entries)"

definition resultPage :: "env \<Rightarrow> string \<Rightarrow> int \<Rightarrow> int \<Rightarrow> search_entry list \<Rightarrow> video_page" where
  "resultPage e query pg sz entries =
     (let matches = matching e query entries;
          tot = int (length matches);
          start = (pg - 1) * sz;
          pageMatches = slice matches start (start + sz)
      in \<lparr>items = map toVideo pageMatches, total = tot, page = pg, pageSize = sz,
          totalPages = ceilDiv tot sz\<rparr>)"

text \<open>\<open>entries.filter\<close> throws when the value kept for the scope is not an array.\<close>

definition search ::
  "env \<Rightarrow> string \<Rightarrow> search_options \<Rightarrow> state \<Rightarrow> (error + video_page) \<times> state"
where
  "search e query opts s =
     (let pg = page_or_1 (so_page opts);
          sz = pageSize_or_24 (so_pageSize opts)
      in if trim query = [] then (Inr (emptyPage pg sz), s)
         else (case getSearchEntries e (so_category opts) (so_playlistId opts) s of
                 (Inl err, s') \<Rightarrow> (Inl err, s')
               | (Inr (JEntries entries), s') \<Rightarrow> (Inr (resultPage e query pg sz entries), s')
               | (Inr _, s') \<Rightarrow> (Inl Type_error, s')))"

subsection \<open>Composite loaders\<close>

text \<open>
  \<open>Promise.all\<close> over two calls: both calls run up to their first suspension, in the
  order written; then each finishes when its response arrives. Which response arrives
  first is not decided by the module: it is the Boolean argument of the loader.
\<close>

definition getIndex_begin :: "env \<Rightarrow> state \<Rightarrow> (json + pending) \<times> state" where
  "getIndex_begin e s =
     (case indexCache s of
        Some idx \<Rightarrow> (Inl idx, s)
      | None \<Rightarrow> (case fetchJson_begin e ''/index.json'' s of (p, s') \<Rightarrow> (Inr p, s')))"

definition getIndex_end :: "json + pending \<Rightarrow> state \<Rightarrow> (error + json) \<times> state" where
  "getIndex_end started s =
     (case started of
        Inl idx \<Rightarrow> (Inr idx, s)
      | Inr p \<Rightarrow>
          (case fetchJson_end ''/index.json'' p s of
             (Inl err, s') \<Rightarrow> (Inl err, s')
           | (Inr idx, s') \<Rightarrow> (Inr idx, s'\<lparr>indexCache := Some idx\<rparr>)))"

definition getVideos_begin ::
  "env \<Rightarrow> options \<Rightarrow> state \<Rightarrow> (error + string \<times> pending) \<times> state"
where
  "getVideos_begin e opts s =
     (case getVideos_path opts of
        Inl err \<Rightarrow> (Inl err, s)
      | Inr path \<Rightarrow> (case fetchJson_begin e path s of (p, s') \<Rightarrow> (Inr (path, p), s')))"

definition getVideos_end ::
  "options \<Rightarrow> error + string \<times> pending \<Rightarrow> state \<Rightarrow> (error + json) \<times> state"
where
  "getVideos_end opts started s =
     (case started of
        Inl err \<Rightarrow> (Inl err, s)
      | Inr (path, p) \<Rightarrow>
          (case fetchJson_end path p s of
             (Inr data, s') \<Rightarrow> (Inr data, s')
           | (Inl _, s') \<Rightarrow> (Inr (JPage (emptyPage (page_or_1 (o_page opts)) 24)), s')))"

text \<open>
  Two calls of \<open>getIndex\<close> started together, as in
  \<open>Promise.all([getIndex(), getIndex()])\<close>: each runs up to its suspension, then each
  finishes, in the order started.
\<close>

definition getIndex_twice ::
  "env \<Rightarrow> state \<Rightarrow> ((error + json) \<times> (error + json)) \<times> state"
where
  "getIndex_twice e s =
     (case getIndex_begin e s of (a, s1) \<Rightarrow>
      case getIndex_begin e s1 of (b, s2) \<Rightarrow>
      case getIndex_end a s2 of (ra, s3) \<Rightarrow>
      case getIndex_end b s3 of (rb, s4) \<Rightarrow> ((ra, rb), s4))"

text \<open>
  \<open>loadStudyHome\<close>: a promise of \<open>getVideos\<close> that is rejected while the path is built is
  rejected before any response arrives, so \<open>Promise.all\<close> rejects with its error.
\<close>

record study_home_data =
  sh_index :: json
  sh_videos :: json

definition loadStudyHome ::
  "env \<Rightarrow> bool \<Rightarrow> options \<Rightarrow> state \<Rightarrow> (error + study_home_data) \<times> state"
where
  "loadStudyHome e index_first opts s =
     (case getIndex_begin e s of (a, s1) \<Rightarrow>
      case getVideos_begin e opts s1 of (b, s2) \<Rightarrow>
      case (if index_first
            then (case getIndex_end a s2 of (ri, s3) \<Rightarrow>
                  case getVideos_end opts b s3 of (rv, s4) \<Rightarrow> (ri, rv, s4))
            else (case getVideos_end opts b s2 of (rv, s3) \<Rightarrow>
                  case getIndex_end a s3 of (ri, s4) \<Rightarrow> (ri, rv, s4))) of
        (ri, rv, s') \<Rightarrow>
          (case rv of
             Inl err \<Rightarrow> (Inl err, s')
           | Inr videos \<Rightarrow>
               (case ri of
                  Inl err \<Rightarrow> (Inl err, s')
                | Inr idx \<Rightarrow> (Inr \<lparr>sh_index = idx, sh_videos = videos\<rparr>, s'))))"

text \<open>
  The object that \<open>loadVideoPage\<close> builds from a neighbour's body \<open>v\<close>: the nine fields
  read from \<open>v\<close>. On a body that is not a video detail every one of these reads gives
  \<open>undefined\<close>; that object is \<open>Undefined_fields\<close>.
\<close>

datatype neighbour = Summary video | Undefined_fields

record video_page_data =
  pd_video :: video_details
  prevVideo :: "neighbour option"
  nextVideo :: "neighbour option"
  playlistName :: string
  playlistVideoCount :: int
  currentIndex :: int

text \<open>The default playlist name of the source, as UTF-8 bytes.\<close>

definition defaultPlaylistName :: string where
  "defaultPlaylistName =
     [CHR 0xD8, CHR 0xAF, CHR 0xD8, CHR 0xB1, CHR 0xD9, CHR 0x88, CHR 0xD8, CHR 0xB3,
      CHR 0x20,
      CHR 0xD9, CHR 0x85, CHR 0xD8, CHR 0xAA, CHR 0xD9, CHR 0x86, CHR 0xD9, CHR 0x88,
      CHR 0xD8, CHR 0xB9, CHR 0xD8, CHR 0xA9]"

definition summary :: "video_details \<Rightarrow> video" where
  "summary v =
     \<lparr>v_id = v_id v, v_title = v_title v, v_publishedAt = v_publishedAt v,
      v_duration = v_duration v, v_thumbnail = v_thumbnail v, v_viewCount = v_viewCount v,
      v_playlistId = v_playlistId v, v_playlistName = v_playlistName v,
      v_category = v_category v\<rparr>"

definition getVideo_end :: "string \<Rightarrow> pending \<Rightarrow> state \<Rightarrow> json option \<times> state" where
  "getVideo_end vid p s =
     (case fetchJson_end (getVideo_path vid) p s of
        (Inr data, s') \<Rightarrow> (Some data, s')
      | (Inl _, s') \<Rightarrow> (None, s'))"

text \<open>
  One neighbour of \<open>loadVideoPage\<close>: \<open>id ? getVideo(id).then(v => v ? {...} : null) :
  Promise.resolve(null)\<close>. Every body is truthy, so every body that loads gives an object,
  and nothing here throws.
\<close>

definition neighbour_begin ::
  "env \<Rightarrow> string option \<Rightarrow> state \<Rightarrow> (string \<times> pending) option \<times> state"
where
  "neighbour_begin e nb s =
     (if truthy nb
      then (case fetchJson_begin e (getVideo_path (or_else nb [])) s of
              (p, s') \<Rightarrow> (Some (or_else nb [], p), s'))
      else (None, s))"

definition neighbour_end ::
  "(string \<times> pending) option \<Rightarrow> state \<Rightarrow> neighbour option \<times> state"
where
  "neighbour_end started s =
     (case started of
        None \<Rightarrow> (None, s)
      | Some (vid, p) \<Rightarrow>
          (case getVideo_end vid p s of
             (None, s') \<Rightarrow> (None, s')
           | (Some (JVideo v), s') \<Rightarrow> (Some (Summary (summary v)), s')
           | (Some _, s') \<Rightarrow> (Some Undefined_fields, s')))"

definition assemble ::
  "video_details \<Rightarrow> neighbour option \<Rightarrow> neighbour option \<Rightarrow> video_page_data"
where
  "assemble v pv nv =
     \<lparr>pd_video = v, prevVideo = pv, nextVideo = nv,
      playlistName = or_else (v_playlistName v) defaultPlaylistName,
      playlistVideoCount = nav_total (vd_nav v),
      currentIndex = nav_index (vd_nav v)\<rparr>"

text \<open>\<open>video.nav.prev\<close> throws when the body of the requested video has no \<open>nav\<close>.\<close>

definition loadVideoPage ::
  "env \<Rightarrow> bool \<Rightarrow> string \<Rightarrow> state \<Rightarrow> (error + video_page_data option) \<times> state"
where
  "loadVideoPage e prev_first videoId s =
     (case getVideo e videoId s of
        (None, s1) \<Rightarrow> (Inr None, s1)
      | (Some (JVideo v), s1) \<Rightarrow>
          (case neighbour_begin e (nav_prev (vd_nav v)) s1 of (a, s2) \<Rightarrow>
           case neighbour_begin e (nav_next (vd_nav v)) s2 of (b, s3) \<Rightarrow>
           if prev_first
           then (case neighbour_end a s3 of (pv, s4) \<Rightarrow>
                 case neighbour_end b s4 of (nv, s5) \<Rightarrow> (Inr (Some (assemble v pv nv)), s5))
           else (case neighbour_end b s3 of (nv, s4) \<Rightarrow>
                 case neighbour_end a s4 of (pv, s5) \<Rightarrow> (Inr (Some (assemble v pv nv)), s5)))
      | (Some _, s1) \<Rightarrow> (Inl Type_error, s1))"

subsection \<open>Sequences of calls\<close>

text \<open>
  The calls a page can make, and a run of them in which each call starts when the one
  before it has finished. The Boolean of a composite loader is the arrival order of its
  two responses.
\<close>

datatype call =
    GetIndex
  | GetVideos options
  | GetVideo string
  | Search string search_options
  | LoadStudyHome bool options
  | LoadVideoPage bool string

fun step :: "env \<Rightarrow> call \<Rightarrow> state \<Rightarrow> state" where
  "step e GetIndex s = snd (getIndex e s)"
| "step e (GetVideos opts) s = snd (getVideos e opts s)"
| "step e (GetVideo vid) s = snd (getVideo e vid s)"
| "step e (Search query opts) s = snd (search e query opts s)"
| "step e (LoadStudyHome index_first opts) s = snd (loadStudyHome e index_first opts s)"
| "step e (LoadVideoPage prev_first vid) s = snd (loadVideoPage e prev_first vid s)"

fun run :: "env \<Rightarrow> call list \<Rightarrow> state \<Rightarrow> state" where
  "run e [] s = s"
| "run e (c # cs) s = run e cs (step e c s)"

subsection \<open>Invariants of the reachable states\<close>

text \<open>
  The bounded cache has pairwise distinct, non-empty keys and at most
  \<open>MAX_CACHE_SIZE\<close> entries.
\<close>

definition cache_inv :: "(string \<times> json) list \<Rightarrow> bool" where
  "cache_inv c \<longleftrightarrow> distinct (Map_keys c) \<and> [] \<notin> set (Map_keys c) \<and> length c \<le> MAX_CACHE_SIZE"

text \<open>
  With the files fixed, every cached body is the body that a fetch of its path would
  give now.
\<close>

definition cache_agrees :: "env \<Rightarrow> (string \<times> json) list \<Rightarrow> bool" where
  "cache_agrees e c \<longleftrightarrow> (\<forall>(p, v) \<in> set c. net e (url_of e p) = Ok v)"

text \<open>
  With the files fixed, the entries kept for the global scope are the concatenation of
  the chunks the manifest declares, whenever the manifest and those chunks load.
\<close>

definition all_agrees :: "env \<Rightarrow> (string \<times> json) list \<Rightarrow> bool" where
  "all_agrees e sc \<longleftrightarrow>
     (\<forall>x n chunk.
        Map_get sc ''__all__'' = Some x \<longrightarrow>
        net e (url_of e ''/search/manifest.json'') = Ok (JManifest n) \<longrightarrow>
        (\<forall>i \<in> {1..n}. net e (url_of e (chunk_path i)) = Ok (JChunk (chunk i))) \<longrightarrow>
        x = JEntries (concat (map chunk [1..n])))"

definition good :: "env \<Rightarrow> state \<Rightarrow> bool" where
  "good e s \<longleftrightarrow> cache_inv (cache s) \<and> cache_agrees e (cache s) \<and> all_agrees e (searchCache s)"

text \<open>
  A started fetch of \<open>path\<close>: a cached body that agrees with the file, or the response
  to the request. \<open>answer\<close> is what \<open>fetchJson\<close> makes of a response.
\<close>

definition pending_of :: "env \<Rightarrow> string \<Rightarrow> pending \<Rightarrow> bool" where
  "pending_of e path p \<longleftrightarrow> (case p of Hit v \<Rightarrow> net e (url_of e path) = Ok v | Awaiting r \<Rightarrow> r = net e (url_of e path))"

definition answer :: "string \<Rightarrow> response \<Rightarrow> error + json" where
  "answer path r =
     (case r of Ok data \<Rightarrow> Inr data | NotOk status \<Rightarrow> Inl (Failed_to_fetch path status)
      | Rejected \<Rightarrow> Inl Fetch_rejected | Unparsable \<Rightarrow> Inl Json_syntax_error)"

definition started_index :: "env \<Rightarrow> json + pending \<Rightarrow> bool" where
  "started_index e a \<longleftrightarrow> (case a of Inl idx \<Rightarrow> True | Inr p \<Rightarrow> pending_of e ''/index.json'' p)"

definition started_video :: "env \<Rightarrow> (string \<times> pending) option \<Rightarrow> bool" where
  "started_video e a \<longleftrightarrow> (case a of None \<Rightarrow> True | Some (vid, p) \<Rightarrow> pending_of e (getVideo_path vid) p)"

definition started_listing :: "env \<Rightarrow> error + string \<times> pending \<Rightarrow> bool" where
  "started_listing e a \<longleftrightarrow>
     (case a of Inl err \<Rightarrow> True | Inr (path, p) \<Rightarrow> path \<noteq> [] \<and> pending_of e path p)"

subsection \<open>Specification-side definitions\<close>

text \<open>
  The path templates as claim C8 words them, for comparison with \<open>getVideos_path\<close>: a
  selector is "present" when it is given, the templates have no leading slash, the
  directories are \<open>playlist\<close> and \<open>category\<close>, and no extension follows the page.
\<close>

definition claimed_listing_path :: "options \<Rightarrow> error + string" where
  "claimed_listing_path opts =
     (let n = show_int (page_or_1 (o_page opts));
          sort = sort_str (sort_or_date (o_sort opts))
      in case o_playlistId opts of
           Some pid \<Rightarrow> Inr (''playlist/'' @ pid @ ''/'' @ sort @ ''/page-'' @ n)
         | None \<Rightarrow>
             (case o_category opts of
                Some c \<Rightarrow>
                  (case encodeURIComponent c of
                     Inl err \<Rightarrow> Inl err
                   | Inr enc \<Rightarrow> Inr (''category/'' @ enc @ ''/'' @ sort @ ''/page-'' @ n))
              | None \<Rightarrow> Inr (''videos/'' @ sort @ ''/page-'' @ n)))"

text \<open>
  The number of items as claim C2 words it, for comparison with the items that \<open>search\<close>
  returns.
\<close>

definition claimed_item_count :: "int \<Rightarrow> int \<Rightarrow> int \<Rightarrow> int \<Rightarrow> int" where
  "claimed_item_count tot sz pg tp =
     (if 1 \<le> pg \<and> pg \<le> tp then min sz (tot - sz * (pg - 1)) else 0)"

text \<open>
  What an awaited \<open>getVideo\<close> of a neighbour id, called in state \<open>s\<close>, would make of the
  neighbour, and the request it would issue.
\<close>

definition neighbour_result :: "env \<Rightarrow> state \<Rightarrow> string option \<Rightarrow> neighbour option" where
  "neighbour_result e s nb =
     (if truthy nb
      then (case fst (getVideo e (or_else nb []) s) of
              None \<Rightarrow> None
            | Some (JVideo d) \<Rightarrow> Some (Summary (summary d))
            | Some _ \<Rightarrow> Some Undefined_fields)
      else None)"

definition neighbour_requests :: "env \<Rightarrow> state \<Rightarrow> string option \<Rightarrow> string list" where
  "neighbour_requests e s nb =
     (if truthy nb \<and> Map_get (cache s) (getVideo_path (or_else nb [])) = None
      then [url_of e (getVideo_path (or_else nb []))]
      else [])"

subsection \<open>Example sites\<close>

text \<open>
  A site on which every fetch succeeds with the same body, a hundred distinct video ids
  (the strings of 0 to 99 letters \<open>a\<close>), a site whose index loads, and a site that is
  down.
\<close>

definition example_env :: env where
  "example_env = \<lparr>isServer = False, cwd = [], net = (\<lambda>u. Ok (JManifest 0)), toLowerCase = (\<lambda>x. x)\<rparr>"

definition a_ids :: "nat \<Rightarrow> string list" where
  "a_ids n = map (\<lambda>k. replicate k CHR ''a'') [0..<n]"

definition hundred_ids :: "string list" where
  "hundred_ids = a_ids 100"

definition example_index :: json where
  "example_index =
     JIndex \<lparr>si_stats = \<lparr>totalVideos = 2, totalPlaylists = 1, categoriesCount = 1,
                          lastUpdated = ''2024-01-01''\<rparr>,
             si_categories = [''fiqh''],
             si_playlists = [\<lparr>pl_id = ''PL1'', pl_name = ''Fiqh'', pl_category = ''fiqh'',
                              pl_videoCount = 2\<rparr>],
             si_pagination = \<lparr>pg_all = 1, byCategory = [(''fiqh'', 1)],
                               byPlaylist = [(''PL1'', 1)]\<rparr>\<rparr>"

definition index_env :: env where
  "index_env =
     \<lparr>isServer = False, cwd = [],
      net = (\<lambda>u. if u = ''/data/index.json'' then Ok example_index else Ok (JManifest 0)),
      toLowerCase = (\<lambda>x. x)\<rparr>"

definition down_env :: env where
  "down_env = \<lparr>isServer = True, cwd = ''/srv'', net = (\<lambda>u. NotOk 404), toLowerCase = (\<lambda>x. x)\<rparr>"

text \<open>
  A small site: an index, one listing page, two video details (\<open>v2\<close> names a next video
  \<open>v3\<close> that has no file), a manifest with two chunks, and the entries of one playlist.
  Its \<open>toLowerCase\<close> maps the ASCII capitals. \<open>catalogue_env\<close> is the same site with a
  detail file for every video id.
\<close>

definition ascii_lower :: "string \<Rightarrow> string" where
  "ascii_lower = map (\<lambda>c. let n = (of_char c :: nat) in if 65 \<le> n \<and> n \<le> 90 then char_of (n + 32) else c)"

definition entry :: "string \<Rightarrow> string \<Rightarrow> search_entry" where
  "entry i title =
     \<lparr>e_id = i, e_t = title, e_c = Some ''tafsir'', e_p = Some ''PL1'', e_d = Some ''PT10M'',
      e_th = None, e_vc = None, e_pa = Some ''2024-01-01'', e_pn = Some ''Tafsir''\<rparr>"

definition detail :: "string \<Rightarrow> string option \<Rightarrow> string option \<Rightarrow> int \<Rightarrow> video_details" where
  "detail i p n k =
     \<lparr>v_id = i, v_title = ''Lesson '' @ i, v_publishedAt = ''2024-01-01'', v_duration = ''PT10M'',
      v_thumbnail = ''t.jpg'', v_viewCount = ''7'', v_playlistId = Some ''PL1'',
      v_playlistName = (if k = 1 then None else Some ''Tafsir''), v_category = Some ''tafsir'',
      vd_description = ''d'', vd_likeCount = None, vd_commentCount = None, vd_tags = None,
      vd_nav = \<lparr>nav_prev = p, nav_next = n, nav_index = k, nav_total = 3\<rparr>\<rparr>"

definition example_page :: video_page where
  "example_page =
     \<lparr>items = [summary (detail ''v1'' None (Some ''v2'') 1)], total = 1, page = 1, pageSize = 24,
      totalPages = Num 1\<rparr>"

definition site_files :: "(string \<times> json) list" where
  "site_files =
     [(''/data/index.json'', example_index),
      (''/data/videos/date/page-1.json'', JPage example_page),
      (''/data/video/v1.json'', JVideo (detail ''v1'' None (Some ''v2'') 1)),
      (''/data/video/v2.json'', JVideo (detail ''v2'' (Some ''v1'') (Some ''v3'') 2)),
      (''/data/search/manifest.json'', JManifest 2),
      (''/data/search/chunk-1.json'',
         JChunk [entry ''a'' ''Tafsir Al-Baqarah'', entry ''b'' ''Intro'']),
      (''/data/search/chunk-2.json'', JChunk [entry ''c'' ''Tafsir An-Nisa'']),
      (''/data/search/playlist/PL1.json'', JEntries [entry ''a'' ''Tafsir Al-Baqarah''])]"

definition site_env :: env where
  "site_env =
     \<lparr>isServer = False, cwd = [],
      net = (\<lambda>u. case map_of site_files u of Some body \<Rightarrow> Ok body | None \<Rightarrow> NotOk 404),
      toLowerCase = ascii_lower\<rparr>"

text \<open>The small site with a search manifest in the place of the detail of \<open>v3\<close>.\<close>

definition stray_env :: env where
  "stray_env =
     site_env\<lparr>net := (\<lambda>u. if u = ''/data/video/v3.json'' then Ok (JManifest 2)
                           else net site_env u)\<rparr>"

definition site_chunk :: "int \<Rightarrow> search_entry list" where
  "site_chunk i =
     (if i = 1 then [entry ''a'' ''Tafsir Al-Baqarah'', entry ''b'' ''Intro'']
      else [entry ''c'' ''Tafsir An-Nisa''])"

definition global_opts :: "int option \<Rightarrow> int option \<Rightarrow> search_options" where
  "global_opts pg sz = \<lparr>so_category = None, so_playlistId = None, so_page = pg, so_pageSize = sz\<rparr>"

definition catalogue_env :: env where
  "catalogue_env =
     \<lparr>isServer = False, cwd = [],
      net = (\<lambda>u. case map_of site_files u of
                   Some body \<Rightarrow> Ok body
                 | None \<Rightarrow> if prefix ''/data/video/'' u
                           then Ok (JVideo (detail ''x'' None None 1)) else NotOk 404),
      toLowerCase = ascii_lower\<rparr>"

definition browse_calls :: "call list" where
  "browse_calls = Search ''tafsir'' (global_opts None None) # map GetVideo hundred_ids"

section \<open>Properties\<close>

lemma Map_keys_Map_set:
  "Map_keys (Map_set k v m) = (if k \<in> set (Map_keys m) then Map_keys m else Map_keys m @ [k])"
  by (induction m) (force simp: Map_keys_def)+

lemma Map_set_fresh: "k \<notin> set (Map_keys m) \<Longrightarrow> Map_set k v m = m @ [(k, v)]"
  by (induction m) (auto simp: Map_keys_def)

lemma length_Map_set:
  "length (Map_set k v m) = (if k \<in> set (Map_keys m) then length m else Suc (length m))"
  by (induction m) (force simp: Map_keys_def)+

lemma Map_delete_first:
  "distinct (Map_keys ((k, v) # m)) \<Longrightarrow> Map_delete k ((k, v) # m) = m"
  by (auto simp: Map_delete_def Map_keys_def filter_id_conv rev_image_eqI)

lemma Map_get_None: "Map_get m k = None \<longleftrightarrow> k \<notin> set (Map_keys m)"
  by (simp add: Map_get_def Map_keys_def map_of_eq_None_iff)

lemma cacheSet_below:
  "length c < MAX_CACHE_SIZE \<Longrightarrow> cacheSet key v c = Map_set key v c"
  by (simp add: cacheSet_def)

lemma cacheSet_full:
  assumes "cache_inv c" and "length c = MAX_CACHE_SIZE"
  shows "cacheSet key v c = Map_set key v (tl c)"
proof (cases c)
  case Nil
  with assms show ?thesis by (simp add: MAX_CACHE_SIZE_def)
next
  case (Cons kv m)
  obtain k w where kv: "kv = (k, w)" by (cases kv)
  from assms Cons kv have "k \<noteq> []" and "distinct (Map_keys ((k, w) # m))"
    by (auto simp: cache_inv_def Map_keys_def)
  then have "Map_delete k ((k, w) # m) = m"
    by (simp only: Map_delete_first)
  with \<open>k \<noteq> []\<close> show ?thesis
    using assms(2) Cons kv by (simp add: cacheSet_def Map_keys_def)
qed

lemma cache_inv_tl: "cache_inv c \<Longrightarrow> cache_inv (tl c)"
  by (cases c) (auto simp: cache_inv_def Map_keys_def)

lemma cacheSet_inv:
  assumes "cache_inv c" and "key \<noteq> []"
  shows "cache_inv (cacheSet key v c)"
proof (cases "length c < MAX_CACHE_SIZE")
  case True
  with assms show ?thesis
    by (auto simp: cacheSet_below cache_inv_def Map_keys_Map_set length_Map_set)
next
  case False
  with assms have full: "length c = MAX_CACHE_SIZE" by (simp add: cache_inv_def)
  then have "length (tl c) < MAX_CACHE_SIZE" by (simp add: MAX_CACHE_SIZE_def)
  moreover have "cache_inv (tl c)" using assms by (simp add: cache_inv_tl)
  ultimately show ?thesis
    using assms full
    by (auto simp: cacheSet_full cache_inv_def Map_keys_Map_set length_Map_set)
qed

lemma cacheSet_evicts_oldest:
  assumes "cache_inv c" and "length c = MAX_CACHE_SIZE" and "key \<notin> set (Map_keys c)"
  shows "cacheSet key v c = tl c @ [(key, v)]"
proof -
  have "key \<notin> set (Map_keys (tl c))"
    using assms(3) by (cases c) (auto simp: Map_keys_def)
  then show ?thesis using assms by (simp add: cacheSet_full Map_set_fresh)
qed

lemma good_init: "good e init"
  by (simp add: good_def init_def cache_inv_def cache_agrees_def all_agrees_def Map_keys_def
      Map_get_def MAX_CACHE_SIZE_def)

lemma set_Map_set: "set (Map_set k v m) \<subseteq> insert (k, v) (set m)"
  by (induction m) (auto split: if_splits)

lemma set_cacheSet: "set (cacheSet k v c) \<subseteq> insert (k, v) (set c)"
proof -
  have "set (Map_delete k' c) \<subseteq> set c" for k' by (auto simp: Map_delete_def)
  then show ?thesis
    using set_Map_set [of k v]
    by (auto simp: cacheSet_def split: list.splits if_splits)
qed

lemma cache_agrees_cacheSet:
  "cache_agrees e c \<Longrightarrow> net e (url_of e k) = Ok v \<Longrightarrow> cache_agrees e (cacheSet k v c)"
  using set_cacheSet [of k v c] by (auto simp: cache_agrees_def)

lemma cache_agrees_get:
  "cache_agrees e c \<Longrightarrow> Map_get c p = Some v \<Longrightarrow> net e (url_of e p) = Ok v"
  by (auto simp: cache_agrees_def Map_get_def dest: map_of_SomeD)

lemma fetchJson_begin_good:
  assumes "good e s" and "fetchJson_begin e path s = (p, s')"
  shows "good e s'" and "pending_of e path p"
  using assms
  by (auto simp: fetchJson_begin_def good_def pending_of_def cache_agrees_get split: option.splits)

lemma fetchJson_end_good:
  assumes "good e s" and "pending_of e path p" and "path \<noteq> []"
    and "fetchJson_end path p s = (r, s')"
  shows "good e s'" and "r = answer path (net e (url_of e path))"
  using assms
  by (auto simp: fetchJson_end_def good_def pending_of_def answer_def cacheSet_inv
      cache_agrees_cacheSet split: pending.splits response.splits)

lemma fetchJson_good:
  assumes "good e s" and "path \<noteq> []" and "fetchJson e path s = (r, s')"
  shows "good e s'" and "r = answer path (net e (url_of e path))"
proof -
  obtain p s1 where b: "fetchJson_begin e path s = (p, s1)" by (cases "fetchJson_begin e path s")
  with assms(3) have en: "fetchJson_end path p s1 = (r, s')" by (simp add: fetchJson_def)
  from fetchJson_begin_good [OF assms(1) b] fetchJson_end_good [OF _ _ assms(2) en]
  show "good e s'" and "r = answer path (net e (url_of e path))" by blast+
qed

lemma surrogateAt_length: "surrogateAt s = Some (k, w, x, rest) \<Longrightarrow> length rest < length s"
  by (auto simp: surrogateAt_def split: list.splits if_splits)

lemma encodeURIComponent_isWellFormed:
  "(\<exists>enc. encodeURIComponent s = Inr enc) \<longleftrightarrow> isWellFormed s"
proof (induction "length s" arbitrary: s rule: less_induct)
  case less
  show ?case
  proof (cases s)
    case Nil
    then show ?thesis by (simp add: encodeURIComponent.simps isWellFormed.simps)
  next
    case (Cons c cs)
    show ?thesis
    proof (cases "surrogateAt s")
      case None
      from less [of cs] Cons
      have "(\<exists>enc. encodeURIComponent cs = Inr enc) \<longleftrightarrow> isWellFormed cs" by simp
      with None Cons show ?thesis
        by (subst encodeURIComponent.simps, subst isWellFormed.simps) (auto split: sum.splits)
    next
      case (Some t)
      obtain high w x rest where t: "t = (high, w, x, rest)" by (cases t)
      show ?thesis
      proof (cases "surrogateAt rest")
        case None
        with Some t Cons show ?thesis
          by (subst encodeURIComponent.simps, subst isWellFormed.simps) simp
      next
        case inner: (Some t')
        obtain high' y z rest' where t': "t' = (high', y, z, rest')" by (cases t')
        from Some t inner t' have "length rest' < length s"
          using surrogateAt_length [of s high w x rest] surrogateAt_length [of rest high' y z rest']
          by simp
        from less [OF this]
        have "(\<exists>enc. encodeURIComponent rest' = Inr enc) \<longleftrightarrow> isWellFormed rest'" .
        with Some t inner t' Cons show ?thesis
          by (subst encodeURIComponent.simps, subst isWellFormed.simps) (auto split: sum.splits)
      qed
    qed
  qed
qed

lemma encodeURIComponent_error: "encodeURIComponent s = Inl err \<Longrightarrow> err = URI_error"
proof (induction "length s" arbitrary: s rule: less_induct)
  case less
  show ?case
  proof (cases s)
    case Nil
    with less.prems show ?thesis by (simp add: encodeURIComponent.simps)
  next
    case (Cons c cs)
    show ?thesis
    proof (cases "surrogateAt s")
      case None
      from less.hyps [of cs] Cons
      have "encodeURIComponent cs = Inl err \<Longrightarrow> err = URI_error" by simp
      with None Cons less.prems show ?thesis
        by (subst (asm) encodeURIComponent.simps) (auto split: sum.splits)
    next
      case (Some t)
      obtain high w x rest where t: "t = (high, w, x, rest)" by (cases t)
      show ?thesis
      proof (cases "surrogateAt rest")
        case None
        with Some t Cons less.prems show ?thesis
          by (subst (asm) encodeURIComponent.simps) simp
      next
        case inner: (Some t')
        obtain high' y z rest' where t': "t' = (high', y, z, rest')" by (cases t')
        from Some t inner t' have "length rest' < length s"
          using surrogateAt_length [of s high w x rest] surrogateAt_length [of rest high' y z rest']
          by simp
        from less.hyps [OF this]
        have "encodeURIComponent rest' = Inl err \<Longrightarrow> err = URI_error" .
        with Some t inner t' Cons less.prems show ?thesis
          by (subst (asm) encodeURIComponent.simps) (auto split: sum.splits if_splits)
      qed
    qed
  qed
qed

lemma hexDigit_not_slash: "hexDigit n \<noteq> CHR ''/''" "CHR ''/'' \<noteq> hexDigit n"
proof -
  have "hexDigit n \<in> set ''0123456789ABCDEF''"
    unfolding hexDigit_def by (rule nth_mem) simp
  then show "hexDigit n \<noteq> CHR ''/''" "CHR ''/'' \<noteq> hexDigit n" by auto
qed

lemma percent_no_slash: "CHR ''/'' \<notin> set (percent c)"
  by (simp add: percent_def hexDigit_not_slash)

lemma percentPair_no_slash: "CHR ''/'' \<notin> set (percentPair w x y z)"
  by (simp add: percentPair_def percent_no_slash)

lemma encodeURIComponent_no_slash: "encodeURIComponent s = Inr enc \<Longrightarrow> CHR ''/'' \<notin> set enc"
proof (induction "length s" arbitrary: s enc rule: less_induct)
  case less
  show ?case
  proof (cases s)
    case Nil
    with less.prems show ?thesis by (simp add: encodeURIComponent.simps)
  next
    case (Cons c cs)
    show ?thesis
    proof (cases "surrogateAt s")
      case None
      from less.hyps [of cs] Cons
      have "encodeURIComponent cs = Inr r \<Longrightarrow> CHR ''/'' \<notin> set r" for r by simp
      with None Cons less.prems show ?thesis
        by (subst (asm) encodeURIComponent.simps)
          (auto simp: percent_no_slash uriUnreserved_def split: sum.splits if_splits)
    next
      case (Some t)
      obtain high w x rest where t: "t = (high, w, x, rest)" by (cases t)
      show ?thesis
      proof (cases "surrogateAt rest")
        case None
        with Some t Cons less.prems show ?thesis
          by (subst (asm) encodeURIComponent.simps) simp
      next
        case inner: (Some t')
        obtain high' y z rest' where t': "t' = (high', y, z, rest')" by (cases t')
        from Some t inner t' have "length rest' < length s"
          using surrogateAt_length [of s high w x rest] surrogateAt_length [of rest high' y z rest']
          by simp
        from less.hyps [OF this]
        have "encodeURIComponent rest' = Inr r \<Longrightarrow> CHR ''/'' \<notin> set r" for r .
        with Some t inner t' Cons less.prems show ?thesis
          by (subst (asm) encodeURIComponent.simps)
            (auto simp: percentPair_no_slash split: sum.splits if_splits)
      qed
    qed
  qed
qed

lemma isWellFormed_plain:
  "CHR 0xED \<notin> set s \<Longrightarrow> isWellFormed s"
proof (induction s)
  case Nil
  show ?case by (simp add: isWellFormed.simps)
next
  case (Cons c cs)
  then have "surrogateAt (c # cs) = None"
    by (auto simp: surrogateAt_def split: list.splits)
  with Cons show ?case by (subst isWellFormed.simps) simp
qed

lemma encodeURIComponent_plain:
  "set s \<subseteq> set uriUnreserved \<Longrightarrow> encodeURIComponent s = Inr s"
proof (induction s)
  case Nil
  show ?case by (simp add: encodeURIComponent.simps)
next
  case (Cons c cs)
  then have "c \<noteq> CHR 0xED" by (auto simp: uriUnreserved_def)
  then have "surrogateAt (c # cs) = None"
    by (auto simp: surrogateAt_def split: list.splits)
  with Cons show ?case by (subst encodeURIComponent.simps) simp
qed

lemma encodeURIComponent_a_b: "encodeURIComponent ''a b'' = Inr ''a%20b''"
  by (simp add: encodeURIComponent.simps surrogateAt_def percent_def hexDigit_def
      uriUnreserved_def)

lemma encodeURIComponent_supplementary:
  "encodeURIComponent [CHR 0xED, CHR 0xA0, CHR 0xBD, CHR 0xED, CHR 0xB8, CHR 0x80]
     = Inr ''%F0%9F%98%80''"
  by (simp add: encodeURIComponent.simps surrogateAt_def percentPair_def percent_def
      hexDigit_def)

lemma encodeURIComponent_lone_surrogate:
  "encodeURIComponent [CHR 0xED, CHR 0xA0, CHR 0x80] = Inl URI_error"
  by (simp add: encodeURIComponent.simps surrogateAt_def)

lemma getVideos_path_nonempty: "getVideos_path opts = Inr path \<Longrightarrow> path \<noteq> []"
  by (auto simp: getVideos_path_def Let_def split: if_splits sum.splits)

lemma getVideo_path_nonempty [simp]: "getVideo_path vid \<noteq> []"
  by (simp add: getVideo_path_def)

lemma chunk_path_nonempty [simp]: "chunk_path i \<noteq> []"
  by (simp add: chunk_path_def)

lemma scope_path_nonempty: "scope_path c p = Inr (Some path) \<Longrightarrow> path \<noteq> []"
  by (auto simp: scope_path_def split: if_splits sum.splits)

lemma scope_path_not_all: "scope_path c p = Inr (Some path) \<Longrightarrow> path \<noteq> ''__all__''"
  by (auto simp: scope_path_def split: if_splits sum.splits)

lemma searchCache_fetchJson [simp]: "searchCache (snd (fetchJson e path s)) = searchCache s"
  by (simp add: fetchJson_def fetchJson_begin_def fetchJson_end_def
      split: option.splits pending.splits response.splits)

lemma getIndex_good: "good e s \<Longrightarrow> good e (snd (getIndex e s))"
proof -
  assume g: "good e s"
  obtain r s' where f: "fetchJson e ''/index.json'' s = (r, s')"
    by (cases "fetchJson e ''/index.json'' s")
  from fetchJson_good(1) [OF g _ f] have "good e s'" by simp
  then have "good e (s'\<lparr>indexCache := x\<rparr>)" for x by (simp add: good_def)
  with g f \<open>good e s'\<close> show ?thesis
    by (simp add: getIndex_def split: option.splits sum.splits)
qed

lemma getVideos_good: "good e s \<Longrightarrow> good e (snd (getVideos e opts s))"
proof (cases "getVideos_path opts")
  case (Inl err)
  assume "good e s"
  with Inl show ?thesis by (simp add: getVideos_def)
next
  case (Inr path)
  assume g: "good e s"
  obtain r s' where f: "fetchJson e path s = (r, s')"
    by (cases "fetchJson e path s")
  from fetchJson_good(1) [OF g getVideos_path_nonempty [OF Inr] f] have "good e s'" .
  with f Inr show ?thesis by (simp add: getVideos_def split: sum.splits)
qed

lemma getVideo_good: "good e s \<Longrightarrow> good e (snd (getVideo e vid s))"
proof -
  assume g: "good e s"
  obtain r s' where f: "fetchJson e (getVideo_path vid) s = (r, s')"
    by (cases "fetchJson e (getVideo_path vid) s")
  from fetchJson_good(1) [OF g _ f] have "good e s'" by simp
  with f show ?thesis by (simp add: getVideo_def split: sum.splits)
qed

lemma loadChunks_good:
  "good e s \<Longrightarrow> good e (snd (loadChunks e i n entries s))
     \<and> searchCache (snd (loadChunks e i n entries s)) = searchCache s"
proof (induction e i n entries s rule: loadChunks.induct)
  case (1 e i n entries s)
  show ?case
  proof (cases "i \<le> n")
    case False
    with "1.prems" show ?thesis by (simp add: loadChunks.simps)
  next
    case True
    obtain r s' where f: "fetchJson e (chunk_path i) s = (r, s')"
      by (cases "fetchJson e (chunk_path i) s")
    from fetchJson_good(1) [OF "1.prems" _ f] have g': "good e s'" by simp
    from f have sc: "searchCache s' = searchCache s"
      using searchCache_fetchJson [of e "chunk_path i" s] by simp
    show ?thesis
    proof (cases r)
      case (Inl err)
      with True f g' sc show ?thesis by (simp add: loadChunks.simps)
    next
      case (Inr j)
      show ?thesis
      proof (cases j)
        case (JChunk es)
        with True f Inr g' sc "1.IH" show ?thesis
          by (simp add: loadChunks.simps [of e i])
      qed (use True f Inr g' sc in \<open>simp_all add: loadChunks.simps\<close>)
    qed
  qed
qed

lemma loadChunks_result:
  "good e s \<Longrightarrow> \<forall>j \<in> {i..n}. net e (url_of e (chunk_path j)) = Ok (JChunk (chunk j)) \<Longrightarrow>
   fst (loadChunks e i n entries s) = Inr (entries @ concat (map chunk [i..n]))"
proof (induction e i n entries s rule: loadChunks.induct)
  case (1 e i n entries s)
  show ?case
  proof (cases "i \<le> n")
    case False
    then show ?thesis by (simp add: loadChunks.simps)
  next
    case True
    obtain r s' where f: "fetchJson e (chunk_path i) s = (r, s')"
      by (cases "fetchJson e (chunk_path i) s")
    from fetchJson_good [OF "1.prems"(1) _ f] have g': "good e s'"
      and r: "r = answer (chunk_path i) (net e (url_of e (chunk_path i)))" by simp_all
    from True "1.prems"(2) have "net e (url_of e (chunk_path i)) = Ok (JChunk (chunk i))" by simp
    with r have r': "r = Inr (JChunk (chunk i))" by (simp add: answer_def)
    from "1.prems"(2) have rest: "\<forall>j \<in> {i + 1..n}. net e (url_of e (chunk_path j)) = Ok (JChunk (chunk j))"
      by simp
    have "fst (loadChunks e (i + 1) n (entries @ chunk i) s')
            = Inr ((entries @ chunk i) @ concat (map chunk [i + 1..n]))"
      using "1.IH" [OF True f [symmetric] r' refl g' rest] .
    with True f r' show ?thesis
      by (simp add: loadChunks.simps [of e i] upto_rec1 [of i n])
  qed
qed

lemma good_searchCache_other:
  "good e s \<Longrightarrow> path \<noteq> ''__all__'' \<Longrightarrow> good e (s\<lparr>searchCache := Map_set path v (searchCache s)\<rparr>)"
proof -
  have "Map_get (Map_set path v m) k = Map_get m k" if "k \<noteq> path" for m :: "(string \<times> json) list" and k
    using that by (induction m) (auto simp: Map_get_def)
  then show "good e s \<Longrightarrow> path \<noteq> ''__all__'' \<Longrightarrow> ?thesis"
    by (simp add: good_def all_agrees_def)
qed

lemma Map_get_Map_set_same: "Map_get (Map_set k v m) k = Some v"
  by (induction m) (auto simp: Map_get_def)

lemma getSearchEntries_scope_good:
  assumes g: "good e s" and sp: "scope_path c p = Inr (Some path)"
  shows "good e (snd (getSearchEntries e c p s))"
proof (cases "Map_get (searchCache s) path")
  case (Some x)
  with g sp show ?thesis by (simp add: getSearchEntries_def)
next
  case None
  obtain r s' where f: "fetchJson e path s = (r, s')" by (cases "fetchJson e path s")
  from fetchJson_good(1) [OF g scope_path_nonempty [OF sp] f] have g': "good e s'" .
  from good_searchCache_other [OF g' scope_path_not_all [OF sp]]
  show ?thesis using None sp f g' by (simp add: getSearchEntries_def split: sum.splits)
qed

lemma getSearchEntries_global_good:
  assumes g: "good e s" and sp: "scope_path c p = Inr None"
  shows "good e (snd (getSearchEntries e c p s))"
proof -
  obtain r s' where f: "fetchJson e ''/search/manifest.json'' s = (r, s')"
    by (cases "fetchJson e ''/search/manifest.json'' s")
  from fetchJson_good [OF g _ f] have g': "good e s'"
    and r: "r = answer ''/search/manifest.json'' (net e (url_of e ''/search/manifest.json''))"
    by simp_all
  show ?thesis
  proof (cases r)
    case (Inl err)
    with sp f g' show ?thesis by (simp add: getSearchEntries_def)
  next
    case (Inr manifest)
    show ?thesis
    proof (cases "Map_get (searchCache s') ''__all__''")
      case (Some x)
      with sp f g' Inr show ?thesis by (simp add: getSearchEntries_def)
    next
      case None
      define res where "res = (case manifest of JManifest totalChunks \<Rightarrow> loadChunks e 1 totalChunks [] s'
                           | _ \<Rightarrow> (Inr [], s'))"
      obtain r2 s2 where res: "res = (r2, s2)" by (cases res)
      have g2: "good e s2"
      proof (cases manifest)
        case (JManifest n)
        with res have "snd (loadChunks e 1 n [] s') = s2" by (simp add: res_def)
        with loadChunks_good [OF g', of 1 n "[]"] show ?thesis by simp
      qed (use res g' in \<open>simp_all add: res_def\<close>)
      show ?thesis
      proof (cases r2)
        case (Inl err)
        with sp f Inr None res g2 show ?thesis
          by (simp add: getSearchEntries_def res_def [symmetric])
      next
        case r2: (Inr entries)
        have "all_agrees e (Map_set ''__all__'' (JEntries entries) (searchCache s2))"
          unfolding all_agrees_def
        proof (intro allI impI)
          fix x n chunk
          assume x: "Map_get (Map_set ''__all__'' (JEntries entries) (searchCache s2)) ''__all__'' = Some x"
            and m: "net e (url_of e ''/search/manifest.json'') = Ok (JManifest n)"
            and ch: "\<forall>i\<in>{1..n}. net e (url_of e (chunk_path i)) = Ok (JChunk (chunk i))"
          from x have x': "x = JEntries entries" by (simp add: Map_get_Map_set_same)
          from r m Inr have "manifest = JManifest n" by (simp add: answer_def)
          with res have "loadChunks e 1 n [] s' = (r2, s2)" by (simp add: res_def)
          with loadChunks_result [OF g' ch, of "[]"] r2 have "entries = concat (map chunk [1..n])"
            by simp
          with x' show "x = JEntries (concat (map chunk [1..n]))" by simp
        qed
        with g2 have "good e (s2\<lparr>searchCache := Map_set ''__all__'' (JEntries entries) (searchCache s2)\<rparr>)"
          by (simp add: good_def)
        with sp f Inr None res r2 show ?thesis
          by (simp add: getSearchEntries_def res_def [symmetric])
      qed
    qed
  qed
qed

lemma getSearchEntries_good: "good e s \<Longrightarrow> good e (snd (getSearchEntries e c p s))"
proof (cases "scope_path c p")
  case (Inl err)
  assume "good e s"
  with Inl show ?thesis by (simp add: getSearchEntries_def)
next
  case (Inr sp)
  assume "good e s"
  with Inr show ?thesis
    by (cases sp) (simp_all add: getSearchEntries_global_good getSearchEntries_scope_good)
qed

lemma search_good: "good e s \<Longrightarrow> good e (snd (search e query opts s))"
  using getSearchEntries_good [of e s "so_category opts" "so_playlistId opts"]
  by (auto simp: search_def Let_def split: prod.splits sum.splits json.splits)

lemma good_indexCache [simp]: "good e (s\<lparr>indexCache := x\<rparr>) = good e s"
  by (simp add: good_def)

lemma getIndex_begin_good:
  assumes "good e s" and "getIndex_begin e s = (a, s')"
  shows "good e s'" and "started_index e a"
proof -
  obtain p s1 where b: "fetchJson_begin e ''/index.json'' s = (p, s1)"
    by (cases "fetchJson_begin e ''/index.json'' s")
  from fetchJson_begin_good [OF assms(1) b] assms b
  show "good e s'" and "started_index e a"
    by (auto simp: getIndex_begin_def started_index_def split: option.splits)
qed

lemma getIndex_end_good:
  assumes "good e s" and "started_index e a"
  shows "good e (snd (getIndex_end a s))"
proof (cases a)
  case (Inl idx)
  with assms show ?thesis by (simp add: getIndex_end_def)
next
  case (Inr p)
  obtain r s' where en: "fetchJson_end ''/index.json'' p s = (r, s')"
    by (cases "fetchJson_end ''/index.json'' p s")
  from assms(2) Inr have "pending_of e ''/index.json'' p" by (simp add: started_index_def)
  from fetchJson_end_good(1) [OF assms(1) this _ en] have "good e s'" by simp
  with Inr en show ?thesis by (simp add: getIndex_end_def split: sum.splits)
qed

lemma getVideos_begin_good:
  assumes "good e s" and "getVideos_begin e opts s = (a, s')"
  shows "good e s'" and "started_listing e a"
proof -
  have "good e s' \<and> started_listing e a"
  proof (cases "getVideos_path opts")
    case (Inl err)
    with assms show ?thesis by (auto simp: getVideos_begin_def started_listing_def)
  next
    case (Inr path)
    obtain p s1 where b: "fetchJson_begin e path s = (p, s1)"
      by (cases "fetchJson_begin e path s")
    from fetchJson_begin_good [OF assms(1) b] assms b Inr getVideos_path_nonempty [OF Inr]
    show ?thesis by (auto simp: getVideos_begin_def started_listing_def)
  qed
  then show "good e s'" and "started_listing e a" by simp_all
qed

lemma getVideos_end_good:
  assumes "good e s" and "started_listing e a"
  shows "good e (snd (getVideos_end opts a s))"
proof (cases a)
  case (Inl err)
  with assms show ?thesis by (simp add: getVideos_end_def)
next
  case (Inr pp)
  obtain path p where pp: "pp = (path, p)" by (cases pp)
  obtain r s' where en: "fetchJson_end path p s = (r, s')" by (cases "fetchJson_end path p s")
  from assms(2) Inr pp have "pending_of e path p" and "path \<noteq> []"
    by (simp_all add: started_listing_def)
  from fetchJson_end_good(1) [OF assms(1) this en] have "good e s'" .
  with Inr pp en show ?thesis by (simp add: getVideos_end_def split: sum.splits)
qed

lemma loadStudyHome_good:
  assumes g: "good e s"
  shows "good e (snd (loadStudyHome e index_first opts s))"
proof -
  obtain a s1 where a: "getIndex_begin e s = (a, s1)" by (cases "getIndex_begin e s")
  obtain b s2 where b: "getVideos_begin e opts s1 = (b, s2)"
    by (cases "getVideos_begin e opts s1")
  from getIndex_begin_good [OF g a] have g1: "good e s1" and sa: "started_index e a" .
  from getVideos_begin_good [OF g1 b] have g2: "good e s2" and pb: "started_listing e b" .
  show ?thesis
  proof (cases index_first)
    case True
    from getIndex_end_good [OF g2 sa] have g3: "good e (snd (getIndex_end a s2))" .
    from getVideos_end_good [OF g3 pb] a b True show ?thesis
      by (simp add: loadStudyHome_def split_beta split: sum.splits)
  next
    case False
    from getVideos_end_good [OF g2 pb] have g3: "good e (snd (getVideos_end opts b s2))" .
    from getIndex_end_good [OF g3 sa] a b False show ?thesis
      by (simp add: loadStudyHome_def split_beta split: sum.splits)
  qed
qed

lemma neighbour_begin_good:
  assumes "good e s" and "neighbour_begin e nb s = (a, s')"
  shows "good e s'" and "started_video e a"
proof -
  obtain p s1 where b: "fetchJson_begin e (getVideo_path (or_else nb [])) s = (p, s1)"
    by (cases "fetchJson_begin e (getVideo_path (or_else nb [])) s")
  from fetchJson_begin_good [OF assms(1) b] assms b
  show "good e s'" and "started_video e a"
    by (auto simp: neighbour_begin_def started_video_def split: if_splits)
qed

lemma neighbour_end_good:
  assumes "good e s" and "started_video e a"
  shows "good e (snd (neighbour_end a s))"
proof (cases a)
  case None
  with assms show ?thesis by (simp add: neighbour_end_def)
next
  case (Some vp)
  obtain vid p where vp: "vp = (vid, p)" by (cases vp)
  obtain r s' where en: "fetchJson_end (getVideo_path vid) p s = (r, s')"
    by (cases "fetchJson_end (getVideo_path vid) p s")
  from assms(2) Some vp have "pending_of e (getVideo_path vid) p" by (simp add: started_video_def)
  from fetchJson_end_good(1) [OF assms(1) this _ en] have "good e s'" by simp
  with Some vp en show ?thesis
    by (simp add: neighbour_end_def getVideo_end_def split: sum.splits json.splits)
qed

lemma loadVideoPage_good:
  assumes g: "good e s"
  shows "good e (snd (loadVideoPage e prev_first vid s))"
proof -
  obtain r s1 where v: "getVideo e vid s = (r, s1)" by (cases "getVideo e vid s")
  from getVideo_good [OF g, of vid] v have g1: "good e s1" by simp
  show ?thesis
  proof (cases r)
    case None
    with v g1 show ?thesis by (simp add: loadVideoPage_def)
  next
    case (Some j)
    show ?thesis
    proof (cases j)
      case (JVideo d)
      obtain a s2 where a: "neighbour_begin e (nav_prev (vd_nav d)) s1 = (a, s2)"
        by (cases "neighbour_begin e (nav_prev (vd_nav d)) s1")
      obtain b s3 where b: "neighbour_begin e (nav_next (vd_nav d)) s2 = (b, s3)"
        by (cases "neighbour_begin e (nav_next (vd_nav d)) s2")
      from neighbour_begin_good [OF g1 a] have g2: "good e s2" and sa: "started_video e a" .
      from neighbour_begin_good [OF g2 b] have g3: "good e s3" and sb: "started_video e b" .
      show ?thesis
      proof (cases prev_first)
        case True
        from neighbour_end_good [OF g3 sa] have "good e (snd (neighbour_end a s3))" .
        from neighbour_end_good [OF this sb] v Some JVideo a b True show ?thesis
          by (auto simp: loadVideoPage_def split: prod.splits)
      next
        case False
        from neighbour_end_good [OF g3 sb] have "good e (snd (neighbour_end b s3))" .
        from neighbour_end_good [OF this sa] v Some JVideo a b False show ?thesis
          by (auto simp: loadVideoPage_def split: prod.splits)
      qed
    qed (use v Some g1 in \<open>simp_all add: loadVideoPage_def\<close>)
  qed
qed

lemma step_good: "good e s \<Longrightarrow> good e (step e c s)"
  by (cases c)
    (simp_all add: getIndex_good getVideos_good getVideo_good search_good
      loadStudyHome_good loadVideoPage_good)

lemma run_good: "good e s \<Longrightarrow> good e (run e cs s)"
  by (induction cs arbitrary: s) (simp_all add: step_good)

lemma loads_inv:
  "cache_inv (cache s) \<Longrightarrow> \<forall>p \<in> set ps. p \<noteq> [] \<Longrightarrow> cache_inv (cache (loads e ps s))"
proof (induction ps arbitrary: s)
  case Nil
  then show ?case by simp
next
  case (Cons p ps)
  have "cache_inv (cache (snd (fetchJson e p s)))"
    using Cons.prems
    by (auto simp: fetchJson_def fetchJson_begin_def fetchJson_end_def cacheSet_inv
        split: option.splits pending.splits response.splits)
  with Cons show ?case by simp
qed

lemma fetchJson_hit: "Map_get (cache s) path = Some v \<Longrightarrow> fetchJson e path s = (Inr v, s)"
  by (simp add: fetchJson_def fetchJson_begin_def fetchJson_end_def)

lemma fetchJson_miss_ok:
  "Map_get (cache s) path = None \<Longrightarrow> net e (url_of e path) = Ok data \<Longrightarrow>
   fetchJson e path s =
     (Inr data, s\<lparr>requests := requests s @ [url_of e path],
                  cache := cacheSet path data (cache s)\<rparr>)"
  by (simp add: fetchJson_def fetchJson_begin_def fetchJson_end_def)

lemma loads_append_fresh:
  assumes "\<forall>p \<in> set ps. net e (url_of e p) = Ok d"
    and "distinct ps" and "set ps \<inter> set (Map_keys (cache s)) = {}"
    and "length (cache s) + length ps \<le> MAX_CACHE_SIZE"
  shows "cache (loads e ps s) = cache s @ map (\<lambda>p. (p, d)) ps"
  using assms
proof (induction ps arbitrary: s)
  case Nil
  then show ?case by simp
next
  case (Cons p ps)
  from Cons.prems have miss: "Map_get (cache s) p = None" and ok: "net e (url_of e p) = Ok d"
    and below: "length (cache s) < MAX_CACHE_SIZE"
    by (auto simp: Map_get_None)
  let ?s = "snd (fetchJson e p s)"
  have c: "cache ?s = cache s @ [(p, d)]"
    using miss ok below
    by (simp add: fetchJson_miss_ok cacheSet_below Map_set_fresh Map_get_None [symmetric])
  have "cache (loads e ps ?s) = cache ?s @ map (\<lambda>p. (p, d)) ps"
    using Cons.prems c by (intro Cons.IH) (auto simp: Map_keys_def)
  with c show ?case by simp
qed

lemma run_GetVideo: "run e (map GetVideo ids) s = loads e (map getVideo_path ids) s"
proof (induction ids arbitrary: s)
  case Nil
  then show ?case by simp
next
  case (Cons i ids)
  have "snd (getVideo e i s) = snd (fetchJson e (getVideo_path i) s)"
    by (simp add: getVideo_def split: prod.splits sum.splits)
  with Cons show ?case by simp
qed

lemma completions_inv:
  "cache_inv c \<Longrightarrow> \<forall>kv \<in> set kvs. fst kv \<noteq> [] \<Longrightarrow> cache_inv (completions kvs c)"
  unfolding completions_def
  by (induction kvs arbitrary: c) (simp_all add: cacheSet_inv)

text \<open>
  Claim C1. The bounded fetch cache never holds more than 100 entries: after every
  sequence of calls of the exported functions, after every sequence of loads of
  non-empty paths (every path the module builds is non-empty), and after every sequence
  of completed fetches of non-empty paths, in whatever order they complete. When the fetch of a
  path that is not cached completes while the cache holds 100 entries, the cache
  afterwards is the old cache without its first (earliest inserted) entry, followed by
  the new entry. A load that hits the cache returns the cached value and leaves the
  whole state, and with it the eviction order, as it was.
\<close>

theorem cache_bounded_FIFO:
  "length (cache (run e calls init)) \<le> 100
   \<and> (Map_get (cache (run e calls init)) path = None
        \<and> length (cache (run e calls init)) = 100 \<longrightarrow>
      cache (snd (fetchJson_end path (Awaiting (Ok data)) (run e calls init)))
        = tl (cache (run e calls init)) @ [(path, data)])
   \<and> (Map_get (cache (run e calls init)) hit = Some v \<longrightarrow>
      fetchJson e hit (run e calls init) = (Inr v, run e calls init))
   \<and> ((\<forall>p \<in> set paths. p \<noteq> []) \<longrightarrow>
      length (cache (loads e paths init)) \<le> 100
      \<and> (Map_get (cache (loads e paths init)) path' = None
           \<and> length (cache (loads e paths init)) = 100 \<longrightarrow>
          cache (snd (fetchJson_end path' (Awaiting (Ok data')) (loads e paths init)))
            = tl (cache (loads e paths init)) @ [(path', data')])
      \<and> (Map_get (cache (loads e paths init)) hit' = Some v' \<longrightarrow>
          fetchJson e hit' (loads e paths init) = (Inr v', loads e paths init)))
   \<and> ((\<forall>kv \<in> set kvs. fst kv \<noteq> []) \<longrightarrow> length (completions kvs []) \<le> 100)"
proof -
  have M: "MAX_CACHE_SIZE = 100" by (simp only: MAX_CACHE_SIZE_def)
  have evict: "cache (snd (fetchJson_end p (Awaiting (Ok x)) s)) = tl (cache s) @ [(p, x)]"
    if inv: "cache_inv (cache s)" and miss: "Map_get (cache s) p = None"
      and full: "length (cache s) = 100"
    for s p x
  proof -
    from full have "length (cache s) = MAX_CACHE_SIZE" by (simp only: M)
    moreover from miss have "p \<notin> set (Map_keys (cache s))"
      using Map_get_None [of "cache s" p] by blast
    ultimately have "cacheSet p x (cache s) = tl (cache s) @ [(p, x)]"
      using inv by (rule cacheSet_evicts_oldest [rotated 1])
    then show ?thesis by (simp add: fetchJson_end_def)
  qed
  have bound: "length c \<le> 100" if "cache_inv c" for c
    using that unfolding cache_inv_def M by (elim conjE)
  have a: "cache_inv (cache (run e calls init))"
    using run_good [OF good_init, of e calls] by (simp add: good_def)
  have b: "cache_inv (cache (loads e paths init))" if "\<forall>p \<in> set paths. p \<noteq> []"
    using that good_init [of e] by (intro loads_inv) (simp_all add: good_def)
  show ?thesis
  proof (intro conjI impI)
    show "length (cache (run e calls init)) \<le> 100" by (rule bound [OF a])
  next
    assume "Map_get (cache (run e calls init)) path = None
      \<and> length (cache (run e calls init)) = 100"
    then show "cache (snd (fetchJson_end path (Awaiting (Ok data)) (run e calls init)))
        = tl (cache (run e calls init)) @ [(path, data)]"
      by (intro evict [OF a]) (elim conjE, assumption)+
  next
    assume "Map_get (cache (run e calls init)) hit = Some v"
    then show "fetchJson e hit (run e calls init) = (Inr v, run e calls init)"
      by (rule fetchJson_hit)
  next
    assume "\<forall>p \<in> set paths. p \<noteq> []"
    then show "length (cache (loads e paths init)) \<le> 100" by (rule bound [OF b])
  next
    assume ne: "\<forall>p \<in> set paths. p \<noteq> []"
      and "Map_get (cache (loads e paths init)) path' = None
        \<and> length (cache (loads e paths init)) = 100"
    then show "cache (snd (fetchJson_end path' (Awaiting (Ok data')) (loads e paths init)))
        = tl (cache (loads e paths init)) @ [(path', data')]"
      by (intro evict [OF b [OF ne]]) (elim conjE, assumption)+
  next
    assume "Map_get (cache (loads e paths init)) hit' = Some v'"
    then show "fetchJson e hit' (loads e paths init) = (Inr v', loads e paths init)"
      by (rule fetchJson_hit)
  next
    assume "\<forall>kv \<in> set kvs. fst kv \<noteq> []"
    then have "cache_inv (completions kvs [])"
      by (intro completions_inv) (simp_all add: cache_inv_def Map_keys_def)
    then show "length (completions kvs []) \<le> 100" by (rule bound)
  qed
qed

lemma distinct_a_ids: "distinct (a_ids n)"
proof -
  have "inj_on (\<lambda>k. replicate k CHR ''a'') A" for A
    by (rule inj_onI) (metis length_replicate)
  then show ?thesis by (simp add: a_ids_def distinct_map)
qed

lemma length_a_ids: "length (a_ids n) = n"
  by (simp add: a_ids_def)

lemma empty_in_a_ids: "0 < n \<Longrightarrow> [] \<in> set (a_ids n)"
proof -
  assume "0 < n"
  then have "replicate 0 CHR ''a'' \<in> set (a_ids n)"
    unfolding a_ids_def set_map set_upt by (intro imageI) simp
  then show ?thesis by simp
qed

lemma hundred_ids: "distinct hundred_ids" "length hundred_ids = 100" "[] \<in> set hundred_ids"
  by (simp_all add: hundred_ids_def distinct_a_ids length_a_ids empty_in_a_ids)

lemma cache_hundred_ids:
  "cache (loads example_env (map getVideo_path hundred_ids) init) = map (\<lambda>p. (p, JManifest 0)) (map getVideo_path hundred_ids)"
proof -
  have "inj getVideo_path" by (rule injI) (simp add: getVideo_path_def)
  then have "distinct (map getVideo_path hundred_ids)"
    using hundred_ids(1) by (simp add: distinct_map inj_on_def)
  then show ?thesis
    using loads_append_fresh [of "map getVideo_path hundred_ids" example_env "JManifest 0" init] hundred_ids(2)
    by (simp add: example_env_def init_def Map_keys_def MAX_CACHE_SIZE_def)
qed

theorem cache_bounded_FIFO_witness:
  "length (cache (run example_env (map GetVideo hundred_ids) init)) = 100
   \<and> cache (snd (fetchJson_end ''/index.json'' (Awaiting (Ok (JManifest 1)))
                (run example_env (map GetVideo hundred_ids) init)))
       = tl (cache (run example_env (map GetVideo hundred_ids) init)) @ [(''/index.json'', JManifest 1)]
   \<and> fetchJson example_env ''/video/.json'' (run example_env (map GetVideo hundred_ids) init)
       = (Inr (JManifest 0), run example_env (map GetVideo hundred_ids) init)
   \<and> [] \<notin> set (map getVideo_path hundred_ids)
   \<and> length (completions [(''/index.json'', JManifest 1), (''/index.json'', JManifest 2)] []) \<le> 100
   \<and> length (cache (loads example_env (map getVideo_path hundred_ids) init)) = 100"
proof -
  let ?s = "run example_env (map GetVideo hundred_ids) init"
  let ?l = "loads example_env (map getVideo_path hundred_ids) init"
  have s: "?s = ?l" by (rule run_GetVideo)
  have len: "length (cache ?l) = 100" by (simp add: cache_hundred_ids hundred_ids(2))
  have miss: "Map_get (cache ?l) ''/index.json'' = None"
    by (auto simp: cache_hundred_ids Map_get_None Map_keys_def getVideo_path_def comp_def)
  have "(''/video/.json'', JManifest 0) \<in> set (cache ?l)"
    using hundred_ids(3) by (force simp: cache_hundred_ids getVideo_path_def)
  moreover have "distinct (map fst (cache ?l))"
    using run_good [OF good_init, of example_env "map GetVideo hundred_ids"]
    by (simp add: s good_def cache_inv_def Map_keys_def)
  ultimately have hit: "Map_get (cache ?l) ''/video/.json'' = Some (JManifest 0)"
    by (simp add: Map_get_def)
  have ne: "\<forall>p \<in> set (map getVideo_path hundred_ids). p \<noteq> []" by (simp add: getVideo_path_def)
  note inst = cache_bounded_FIFO [of example_env "map GetVideo hundred_ids" "''/index.json''" "JManifest 1"
        "''/video/.json''" "JManifest 0" "map getVideo_path hundred_ids" "''/index.json''" "JManifest 1"
        "''/video/.json''" "JManifest 0"
        "[(''/index.json'', JManifest 1), (''/index.json'', JManifest 2)]", unfolded s]
  from inst have "Map_get (cache ?l) ''/index.json'' = None \<and> length (cache ?l) = 100 \<longrightarrow>
      cache (snd (fetchJson_end ''/index.json'' (Awaiting (Ok (JManifest 1))) ?l))
        = tl (cache ?l) @ [(''/index.json'', JManifest 1)]"
    by (elim conjE)
  with miss len have ev: "cache (snd (fetchJson_end ''/index.json'' (Awaiting (Ok (JManifest 1))) ?l))
        = tl (cache ?l) @ [(''/index.json'', JManifest 1)]"
    by blast
  from inst have "Map_get (cache ?l) ''/video/.json'' = Some (JManifest 0) \<longrightarrow>
      fetchJson example_env ''/video/.json'' ?l = (Inr (JManifest 0), ?l)"
    by (elim conjE)
  with hit have h: "fetchJson example_env ''/video/.json'' ?l = (Inr (JManifest 0), ?l)"
    by blast
  from ne have ne': "[] \<notin> set (map getVideo_path hundred_ids)" by blast
  have "\<forall>kv \<in> set [(''/index.json'', JManifest 1), (''/index.json'', JManifest 2)]. fst kv \<noteq> []"
    by simp
  with inst have co: "length (completions [(''/index.json'', JManifest 1),
      (''/index.json'', JManifest 2)] []) \<le> 100"
    by blast
  show ?thesis
    unfolding s using len ev h ne' co by (intro conjI) simp_all
qed

lemma run_append: "run e (xs @ ys) s = run e ys (run e xs s)"
  by (induction xs arbitrary: s) simp_all

lemma loads_fifo:
  assumes "\<forall>p \<in> set ps. net e (url_of e p) = Ok d"
    and "distinct ps" and "set ps \<inter> set (Map_keys (cache s)) = {}"
    and "cache_inv (cache s)" and "[] \<notin> set ps"
  shows "cache (loads e ps s)
           = drop (length (cache s) + length ps - MAX_CACHE_SIZE) (cache s @ map (\<lambda>p. (p, d)) ps)"
  using assms
proof (induction ps arbitrary: s)
  case Nil
  then show ?case by (simp add: cache_inv_def)
next
  case (Cons p ps)
  from Cons.prems have miss: "Map_get (cache s) p = None" and ok: "net e (url_of e p) = Ok d"
    and fresh: "p \<notin> set (Map_keys (cache s))" and ne: "p \<noteq> []"
    by (auto simp: Map_get_None)
  let ?s = "snd (fetchJson e p s)"
  have c: "cache ?s = cacheSet p d (cache s)"
    using miss ok by (simp add: fetchJson_miss_ok)
  have inv': "cache_inv (cache ?s)"
    unfolding c using Cons.prems(4) ne by (rule cacheSet_inv)
  have keys': "set (Map_keys (cache ?s)) \<subseteq> insert p (set (Map_keys (cache s)))"
    unfolding c using set_cacheSet [of p d "cache s"] by (auto simp: Map_keys_def)
  have IH: "cache (loads e ps ?s)
      = drop (length (cache ?s) + length ps - MAX_CACHE_SIZE) (cache ?s @ map (\<lambda>p. (p, d)) ps)"
    using Cons.prems keys' inv' by (intro Cons.IH) auto
  show ?case
  proof (cases "length (cache s) < MAX_CACHE_SIZE")
    case True
    then have "cache ?s = cache s @ [(p, d)]"
      unfolding c using fresh by (simp add: cacheSet_below Map_set_fresh)
    with IH show ?thesis by simp
  next
    case False
    with Cons.prems(4) have full: "length (cache s) = MAX_CACHE_SIZE"
      by (simp add: cache_inv_def)
    then have c': "cache ?s = tl (cache s) @ [(p, d)]"
      unfolding c using fresh Cons.prems(4) by (simp add: cacheSet_evicts_oldest)
    have pos: "0 < MAX_CACHE_SIZE" by (simp add: MAX_CACHE_SIZE_def)
    with full have "length (tl (cache s)) = MAX_CACHE_SIZE - 1" by simp
    with IH c' pos have "cache (loads e ps ?s)
        = drop (length ps) (tl (cache s) @ (p, d) # map (\<lambda>p. (p, d)) ps)"
      by simp
    also have "\<dots> = drop (Suc (length ps)) (cache s @ (p, d) # map (\<lambda>p. (p, d)) ps)"
      using full pos by (cases "cache s") simp_all
    finally show ?thesis using full by simp
  qed
qed

lemma getIndex_cached: "indexCache s = Some idx \<Longrightarrow> getIndex e s = (Inr idx, s)"
  by (simp add: getIndex_def)

lemma indexCache_fetchJson [simp]: "indexCache (snd (fetchJson e path s)) = indexCache s"
  by (simp add: fetchJson_def fetchJson_begin_def fetchJson_end_def
      split: option.splits pending.splits response.splits)

lemma indexCache_fetchJson_begin [simp]: "indexCache (snd (fetchJson_begin e path s)) = indexCache s"
  by (simp add: fetchJson_begin_def split: option.splits)

lemma indexCache_fetchJson_end [simp]: "indexCache (snd (fetchJson_end path p s)) = indexCache s"
  by (simp add: fetchJson_end_def split: pending.splits response.splits)

lemma indexCache_loadChunks [simp]: "indexCache (snd (loadChunks e i n entries s)) = indexCache s"
proof (induction e i n entries s rule: loadChunks.induct)
  case (1 e i n entries s)
  show ?case
  proof (cases "i \<le> n")
    case False
    then show ?thesis by (simp add: loadChunks.simps)
  next
    case True
    obtain r s' where f: "fetchJson e (chunk_path i) s = (r, s')"
      by (cases "fetchJson e (chunk_path i) s")
    then have i': "indexCache s' = indexCache s"
      using indexCache_fetchJson [of e "chunk_path i" s] by simp
    show ?thesis
    proof (cases r)
      case (Inl err)
      with True f i' show ?thesis by (simp add: loadChunks.simps)
    next
      case (Inr j)
      show ?thesis
      proof (cases j)
        case (JChunk es)
        with True f Inr i' "1.IH" show ?thesis by (simp add: loadChunks.simps [of e i])
      qed (use True f Inr i' in \<open>simp_all add: loadChunks.simps\<close>)
    qed
  qed
qed

lemma indexCache_fetchJsonD: "fetchJson e path s = (r, s') \<Longrightarrow> indexCache s' = indexCache s"
  using indexCache_fetchJson [of e path s] by simp

lemma indexCache_fetchJson_beginD:
  "fetchJson_begin e path s = (p, s') \<Longrightarrow> indexCache s' = indexCache s"
  using indexCache_fetchJson_begin [of e path s] by simp

lemma indexCache_fetchJson_endD:
  "fetchJson_end path p s = (r, s') \<Longrightarrow> indexCache s' = indexCache s"
  using indexCache_fetchJson_end [of path p s] by simp

lemma indexCache_getVideos [simp]: "indexCache (snd (getVideos e opts s)) = indexCache s"
  by (auto simp: getVideos_def split: prod.splits sum.splits dest: indexCache_fetchJsonD)

lemma indexCache_getVideo [simp]: "indexCache (snd (getVideo e vid s)) = indexCache s"
  by (auto simp: getVideo_def split: prod.splits sum.splits dest: indexCache_fetchJsonD)

lemma indexCache_getSearchEntries [simp]:
  "indexCache (snd (getSearchEntries e c p s)) = indexCache s"
proof -
  have "indexCache (snd (case m of JManifest n \<Rightarrow> loadChunks e 1 n [] t | _ \<Rightarrow> (Inr [], t)))
          = indexCache t" for m t
    by (cases m) simp_all
  then show ?thesis
    by (simp add: getSearchEntries_def split_beta split: option.splits sum.splits)
qed

lemma indexCache_search [simp]: "indexCache (snd (search e q opts s)) = indexCache s"
  by (simp add: search_def Let_def split_beta split: sum.splits json.splits)

lemma indexCache_neighbour_begin [simp]:
  "indexCache (snd (neighbour_begin e nb s)) = indexCache s"
  by (auto simp: neighbour_begin_def split: prod.splits dest: indexCache_fetchJson_beginD)

lemma indexCache_neighbour_end [simp]:
  "indexCache (snd (neighbour_end a s)) = indexCache s"
proof (cases a)
  case None
  then show ?thesis by (simp add: neighbour_end_def)
next
  case (Some vp)
  obtain vid p where "vp = (vid, p)" by (cases vp)
  with Some show ?thesis
    by (auto simp: neighbour_end_def getVideo_end_def split: prod.splits sum.splits json.splits
        dest: indexCache_fetchJson_endD)
qed

lemma indexCache_loadVideoPage [simp]:
  "indexCache (snd (loadVideoPage e b vid s)) = indexCache s"
  by (simp add: loadVideoPage_def split_beta split: option.splits json.splits)

lemma indexCache_getVideos_end [simp]: "indexCache (snd (getVideos_end opts p s)) = indexCache s"
  by (auto simp: getVideos_end_def split: prod.splits sum.splits dest: indexCache_fetchJson_endD)

lemma indexCache_getVideos_begin [simp]:
  "indexCache (snd (getVideos_begin e opts s)) = indexCache s"
  by (auto simp: getVideos_begin_def split: prod.splits sum.splits
      dest: indexCache_fetchJson_beginD)

lemma indexCache_loadStudyHome:
  "indexCache s = Some idx \<Longrightarrow> indexCache (snd (loadStudyHome e b opts s)) = Some idx"
  by (simp add: loadStudyHome_def getIndex_begin_def getIndex_end_def split_beta
      split: sum.splits)

lemma indexCache_step: "indexCache s = Some idx \<Longrightarrow> indexCache (step e c s) = Some idx"
  by (cases c) (simp_all add: getIndex_cached indexCache_loadStudyHome)

lemma indexCache_run: "indexCache s = Some idx \<Longrightarrow> indexCache (run e cs s) = Some idx"
  by (induction cs arbitrary: s) (simp_all add: indexCache_step)

lemma requests_getIndex_twice:
  assumes "indexCache s = None" and "Map_get (cache s) ''/index.json'' = None"
  shows "requests (snd (getIndex_twice e s))
           = requests s @ [url_of e ''/index.json'', url_of e ''/index.json'']"
  using assms
  by (cases "net e (url_of e ''/index.json'')")
    (simp_all add: getIndex_twice_def getIndex_begin_def getIndex_end_def fetchJson_begin_def
      fetchJson_end_def)

text \<open>
  Claim C5, as amended. \<open>getIndex\<close> memoises the site index when a call completes, not
  when it starts. With nothing memoised and nothing cached, a call whose fetch succeeds
  requests \<open>/index.json\<close>, stores the body in the bounded cache and memoises it in
  \<open>indexCache\<close>. Once \<open>indexCache\<close> holds an index, then after any further sequence of
  calls of the exported functions (whatever they evict from the bounded cache) \<open>getIndex\<close>
  returns that same index and leaves the state, and so the list of requests, unchanged; a
  call that starts then does not suspend on a fetch, and returns that index in whatever
  state it finishes. When the fetch fails, the error is the result of \<open>getIndex\<close> and
  nothing is memoised. Two calls started together, with nothing memoised and nothing
  cached, request \<open>/index.json\<close> twice.
\<close>

theorem getIndex_memoised:
  "(indexCache s = None \<and> Map_get (cache s) ''/index.json'' = None
      \<and> net e (url_of e ''/index.json'') = Ok idx \<longrightarrow>
    getIndex e s =
      (Inr idx, s\<lparr>requests := requests s @ [url_of e ''/index.json''],
                 cache := cacheSet ''/index.json'' idx (cache s),
                 indexCache := Some idx\<rparr>))
   \<and> (indexCache s' = Some idx' \<longrightarrow>
        getIndex e (run e calls s') = (Inr idx', run e calls s'))
   \<and> (indexCache s'' = None \<and> fst (fetchJson e ''/index.json'' s'') = Inl err \<longrightarrow>
        fst (getIndex e s'') = Inl err \<and> snd (getIndex e s'') = snd (fetchJson e ''/index.json'' s'')
        \<and> indexCache (snd (getIndex e s'')) = None)
   \<and> (indexCache s' = Some idx' \<longrightarrow>
        getIndex_begin e (run e calls s') = (Inl idx', run e calls s')
        \<and> getIndex_end (Inl idx') t = (Inr idx', t))
   \<and> (indexCache s = None \<and> Map_get (cache s) ''/index.json'' = None \<longrightarrow>
        requests (snd (getIndex_twice e s))
          = requests s @ [url_of e ''/index.json'', url_of e ''/index.json''])"
proof (intro conjI impI)
  assume "indexCache s = None \<and> Map_get (cache s) ''/index.json'' = None
      \<and> net e (url_of e ''/index.json'') = Ok idx"
  then show "getIndex e s =
      (Inr idx, s\<lparr>requests := requests s @ [url_of e ''/index.json''],
                 cache := cacheSet ''/index.json'' idx (cache s),
                 indexCache := Some idx\<rparr>)"
    by (simp add: getIndex_def fetchJson_miss_ok)
next
  assume "indexCache s' = Some idx'"
  then have "indexCache (run e calls s') = Some idx'" by (rule indexCache_run)
  then show "getIndex e (run e calls s') = (Inr idx', run e calls s')" by (rule getIndex_cached)
next
  assume a: "indexCache s'' = None \<and> fst (fetchJson e ''/index.json'' s'') = Inl err"
  then show "fst (getIndex e s'') = Inl err"
    by (simp add: getIndex_def split_beta)
  from a show "snd (getIndex e s'') = snd (fetchJson e ''/index.json'' s'')"
    by (simp add: getIndex_def split_beta)
  from a show "indexCache (snd (getIndex e s'')) = None"
    by (simp add: getIndex_def split_beta)
next
  assume "indexCache s' = Some idx'"
  then have "indexCache (run e calls s') = Some idx'" by (rule indexCache_run)
  then show "getIndex_begin e (run e calls s') = (Inl idx', run e calls s')"
    by (simp add: getIndex_begin_def)
  show "getIndex_end (Inl idx') t = (Inr idx', t)"
    by (simp add: getIndex_end_def)
next
  assume "indexCache s = None \<and> Map_get (cache s) ''/index.json'' = None"
  then show "requests (snd (getIndex_twice e s))
          = requests s @ [url_of e ''/index.json'', url_of e ''/index.json'']"
    by (simp add: requests_getIndex_twice)
qed

lemma index_evicted:
  "Map_get (cache (run index_env (GetIndex # map GetVideo hundred_ids) init)) ''/index.json'' = None"
proof -
  let ?s1 = "snd (getIndex index_env init)"
  let ?ps = "map getVideo_path hundred_ids"
  have s1: "cache ?s1 = [(''/index.json'', example_index)]"
    by (simp add: getIndex_def init_def fetchJson_def fetchJson_begin_def fetchJson_end_def
        Map_get_def index_env_def url_of_def cacheSet_def MAX_CACHE_SIZE_def)
  have inv: "cache_inv (cache ?s1)"
    using getIndex_good [OF good_init, of index_env] by (simp only: good_def)
  have "inj getVideo_path" by (rule injI) (simp add: getVideo_path_def)
  then have d: "distinct ?ps" using hundred_ids(1) by (simp add: distinct_map inj_on_def)
  have ok: "\<forall>p \<in> set ?ps. net index_env (url_of index_env p) = Ok (JManifest 0)"
    by (auto simp: index_env_def url_of_def getVideo_path_def)
  have fresh: "set ?ps \<inter> set (Map_keys (cache ?s1)) = {}"
    by (auto simp: s1 Map_keys_def getVideo_path_def)
  have ne: "[] \<notin> set ?ps" by (auto simp: getVideo_path_def)
  have "cache (loads index_env ?ps ?s1)
      = drop (length (cache ?s1) + length ?ps - MAX_CACHE_SIZE)
          (cache ?s1 @ map (\<lambda>p. (p, JManifest 0)) ?ps)"
    using ok d fresh inv ne by (rule loads_fifo)
  also have "\<dots> = map (\<lambda>p. (p, JManifest 0)) ?ps"
    by (simp add: s1 hundred_ids(2) MAX_CACHE_SIZE_def)
  finally have "cache (run index_env (GetIndex # map GetVideo hundred_ids) init)
      = map (\<lambda>p. (p, JManifest 0)) ?ps"
    by (simp add: run_GetVideo)
  then show ?thesis
    by (auto simp: Map_get_None Map_keys_def getVideo_path_def comp_def)
qed

theorem getIndex_memoised_witness:
  "getIndex index_env init =
     (Inr example_index,
      init\<lparr>requests := [''/data/index.json''],
           cache := [(''/index.json'', example_index)],
           indexCache := Some example_index\<rparr>)
   \<and> Map_get (cache (run index_env (GetIndex # map GetVideo hundred_ids) init)) ''/index.json'' = None
   \<and> getIndex index_env (run index_env (GetIndex # map GetVideo hundred_ids) init)
       = (Inr example_index, run index_env (GetIndex # map GetVideo hundred_ids) init)
   \<and> fst (getIndex down_env init) = Inl (Failed_to_fetch ''/index.json'' 404)
   \<and> indexCache (snd (getIndex down_env init)) = None
   \<and> getIndex_begin index_env (run index_env (GetIndex # map GetVideo hundred_ids) init)
       = (Inl example_index, run index_env (GetIndex # map GetVideo hundred_ids) init)
   \<and> requests (snd (getIndex_twice down_env init))
       = [''file:///srv/public/data/index.json'', ''file:///srv/public/data/index.json'']"
proof -
  have h1: "indexCache init = None \<and> Map_get (cache init) ''/index.json'' = None
      \<and> net index_env (url_of index_env ''/index.json'') = Ok example_index"
    by (simp add: init_def Map_get_def index_env_def url_of_def)
  have ev: "cacheSet ''/index.json'' example_index [] = [(''/index.json'', example_index)]"
    by (simp add: cacheSet_def MAX_CACHE_SIZE_def)
  have a: "getIndex index_env init =
     (Inr example_index,
      init\<lparr>requests := [''/data/index.json''],
           cache := [(''/index.json'', example_index)],
           indexCache := Some example_index\<rparr>)"
    using getIndex_memoised [of init index_env example_index init example_index "[]" init
        "Failed_to_fetch ''/index.json'' 404" init] h1
    by (simp add: init_def ev index_env_def url_of_def)
  let ?s = "step index_env GetIndex init"
  have "indexCache ?s = Some example_index" by (simp add: a)
  then have b: "getIndex index_env (run index_env (map GetVideo hundred_ids) ?s)
       = (Inr example_index, run index_env (map GetVideo hundred_ids) ?s)
     \<and> getIndex_begin index_env (run index_env (map GetVideo hundred_ids) ?s)
       = (Inl example_index, run index_env (map GetVideo hundred_ids) ?s)"
    using getIndex_memoised [of init index_env example_index ?s example_index
        "map GetVideo hundred_ids" init "Failed_to_fetch ''/index.json'' 404" init]
    by blast
  have h3: "indexCache init = None
      \<and> fst (fetchJson down_env ''/index.json'' init) = Inl (Failed_to_fetch ''/index.json'' 404)"
    by (simp add: init_def fetchJson_def fetchJson_begin_def fetchJson_end_def Map_get_def
        down_env_def)
  have c: "fst (getIndex down_env init) = Inl (Failed_to_fetch ''/index.json'' 404)
      \<and> indexCache (snd (getIndex down_env init)) = None"
    using getIndex_memoised [of init down_env example_index init example_index "[]" init
        "Failed_to_fetch ''/index.json'' 404" init] h3
    by blast
  have h5: "indexCache init = None \<and> Map_get (cache init) ''/index.json'' = None"
    by (simp add: init_def Map_get_def)
  have d: "requests (snd (getIndex_twice down_env init))
       = [''file:///srv/public/data/index.json'', ''file:///srv/public/data/index.json'']"
    using getIndex_memoised [of init down_env example_index init example_index "[]" init
        "Failed_to_fetch ''/index.json'' 404" init] h5
    by (simp add: init_def url_of_def down_env_def)
  from a b c d index_evicted show ?thesis by simp
qed

theorem getIndex_memoised_counterexample:
  "getIndex_twice index_env init
     = ((Inr example_index, Inr example_index),
        init\<lparr>requests := [''/data/index.json'', ''/data/index.json''],
             cache := [(''/index.json'', example_index)],
             indexCache := Some example_index\<rparr>)"
  by (simp add: getIndex_twice_def getIndex_begin_def getIndex_end_def fetchJson_begin_def
      fetchJson_end_def init_def Map_get_def index_env_def url_of_def cacheSet_def
      MAX_CACHE_SIZE_def)

lemma fetchJson_miss_fail:
  "Map_get (cache s) path = None \<Longrightarrow> \<forall>d. net e (url_of e path) \<noteq> Ok d \<Longrightarrow>
   fetchJson e path s
     = (answer path (net e (url_of e path)), s\<lparr>requests := requests s @ [url_of e path]\<rparr>)"
  by (cases "net e (url_of e path)")
    (simp_all add: fetchJson_def fetchJson_begin_def fetchJson_end_def answer_def)

lemma answer_fail: "\<forall>d. r \<noteq> Ok d \<Longrightarrow> \<exists>err. answer path r = Inl err"
  by (cases r) (simp_all add: answer_def)

text \<open>
  Claim C6, as amended. When the playlist id is a non-empty string, or the category has
  no unpaired surrogate, \<open>getVideos\<close> builds a path and returns a value: the body that
  \<open>fetchJson\<close> gives, and when \<open>fetchJson\<close> fails, with whatever error, the page with no
  items, \<open>total = 0\<close>, \<open>totalPages = 0\<close>, the requested page number (1 when none was given)
  and the page size 24. In particular, when the path is not cached and the response is not
  an \<open>ok\<close> response with a body that parses, the result is that empty page, and the state
  differs from the old one by the recorded request only. When there is no playlist id and
  the category has an unpaired surrogate, \<open>encodeURIComponent\<close> throws before the \<open>try\<close>
  block: the result of \<open>getVideos\<close> is the \<open>URIError\<close>, and the state is unchanged.
\<close>

theorem getVideos_degrades:
  "(getVideos_path opts = Inr path \<and> fst (fetchJson e path s) = Inl err \<longrightarrow>
      fst (getVideos e opts s)
        = Inr (JPage \<lparr>items = [], total = 0, page = page_or_1 (o_page opts), pageSize = 24,
                       totalPages = Num 0\<rparr>))
   \<and> (getVideos_path opts = Inr path \<and> fst (fetchJson e path s) = Inr data \<longrightarrow>
      fst (getVideos e opts s) = Inr data)
   \<and> (getVideos_path opts = Inr path \<and> Map_get (cache s) path = None
        \<and> (\<forall>d. net e (url_of e path) \<noteq> Ok d) \<longrightarrow>
      getVideos e opts s
        = (Inr (JPage \<lparr>items = [], total = 0, page = page_or_1 (o_page opts), pageSize = 24,
                        totalPages = Num 0\<rparr>),
           s\<lparr>requests := requests s @ [url_of e path]\<rparr>))
   \<and> (truthy (o_playlistId opts) \<or> isWellFormed (or_else (o_category opts) []) \<longrightarrow>
      (\<exists>p. getVideos_path opts = Inr p) \<and> (\<exists>r. fst (getVideos e opts s) = Inr r))
   \<and> (\<not> truthy (o_playlistId opts) \<and> \<not> isWellFormed (or_else (o_category opts) []) \<longrightarrow>
      getVideos e opts s = (Inl URI_error, s))"
proof (intro conjI impI)
  assume "getVideos_path opts = Inr path \<and> fst (fetchJson e path s) = Inl err"
  then show "fst (getVideos e opts s)
        = Inr (JPage \<lparr>items = [], total = 0, page = page_or_1 (o_page opts), pageSize = 24,
                       totalPages = Num 0\<rparr>)"
    by (simp add: getVideos_def emptyPage_def split_beta)
next
  assume "getVideos_path opts = Inr path \<and> fst (fetchJson e path s) = Inr data"
  then show "fst (getVideos e opts s) = Inr data"
    by (simp add: getVideos_def split_beta)
next
  assume a: "getVideos_path opts = Inr path \<and> Map_get (cache s) path = None
        \<and> (\<forall>d. net e (url_of e path) \<noteq> Ok d)"
  then obtain err where "answer path (net e (url_of e path)) = Inl err"
    using answer_fail by blast
  with a show "getVideos e opts s
        = (Inr (JPage \<lparr>items = [], total = 0, page = page_or_1 (o_page opts), pageSize = 24,
                        totalPages = Num 0\<rparr>),
           s\<lparr>requests := requests s @ [url_of e path]\<rparr>)"
    by (simp add: getVideos_def emptyPage_def fetchJson_miss_fail)
next
  assume a: "truthy (o_playlistId opts) \<or> isWellFormed (or_else (o_category opts) [])"
  show p: "\<exists>p. getVideos_path opts = Inr p"
  proof (cases "truthy (o_playlistId opts)")
    case True
    then show ?thesis by (simp add: getVideos_path_def Let_def)
  next
    case False
    with a have "isWellFormed (or_else (o_category opts) [])" by simp
    then obtain enc where "encodeURIComponent (or_else (o_category opts) []) = Inr enc"
      using encodeURIComponent_isWellFormed by blast
    then show ?thesis by (simp add: getVideos_path_def Let_def)
  qed
  then obtain p where "getVideos_path opts = Inr p" ..
  then show "\<exists>r. fst (getVideos e opts s) = Inr r"
    by (simp add: getVideos_def split_beta split: sum.splits)
next
  assume a: "\<not> truthy (o_playlistId opts) \<and> \<not> isWellFormed (or_else (o_category opts) [])"
  have plain: "isWellFormed []" "isWellFormed ''all''" "isWellFormed ''channel''"
    by (simp_all add: isWellFormed_plain)
  from a plain have c: "truthy (o_category opts)" "o_category opts \<noteq> Some ''all''"
    "o_category opts \<noteq> Some ''channel''"
    by (auto simp: truthy_def or_else_def split: option.splits)
  from a have "\<nexists>enc. encodeURIComponent (or_else (o_category opts) []) = Inr enc"
    using encodeURIComponent_isWellFormed by blast
  then obtain err where err: "encodeURIComponent (or_else (o_category opts) []) = Inl err"
    by (cases "encodeURIComponent (or_else (o_category opts) [])") auto
  then have "err = URI_error" by (rule encodeURIComponent_error)
  with a c err show "getVideos e opts s = (Inl URI_error, s)"
    by (simp add: getVideos_def getVideos_path_def Let_def)
qed

theorem getVideos_degrades_witness:
  "getVideos down_env \<lparr>o_page = Some 999, o_sort = Some Oldest, o_category = Some ''fiqh'',
                        o_playlistId = None\<rparr> init
     = (Inr (JPage \<lparr>items = [], total = 0, page = 999, pageSize = 24, totalPages = Num 0\<rparr>),
        init\<lparr>requests := [''file:///srv/public/data/categories/fiqh/oldest/page-999.json'']\<rparr>)
   \<and> fst (getVideos site_env \<lparr>o_page = None, o_sort = None, o_category = None,
                                o_playlistId = None\<rparr> init) = Inr (JPage example_page)
   \<and> getVideos site_env \<lparr>o_page = Some 2, o_sort = None,
                          o_category = Some [CHR 0xED, CHR 0xB0, CHR 0x80],
                          o_playlistId = Some []\<rparr> init = (Inl URI_error, init)"
proof -
  let ?o = "\<lparr>o_page = Some 999, o_sort = Some Oldest, o_category = Some ''fiqh'',
             o_playlistId = None\<rparr>"
  let ?o' = "\<lparr>o_page = None, o_sort = None, o_category = None, o_playlistId = None\<rparr>"
  let ?o'' = "\<lparr>o_page = Some 2, o_sort = None, o_category = Some [CHR 0xED, CHR 0xB0, CHR 0x80],
               o_playlistId = Some []\<rparr>"
  let ?p = "''/categories/fiqh/oldest/page-999.json''"
  let ?p' = "''/videos/date/page-1.json''"
  have n: "show_int 999 = ''999''" "show_int 1 = ''1''" by code_simp+
  have enc: "encodeURIComponent ''fiqh'' = Inr ''fiqh''"
    by (rule encodeURIComponent_plain) (simp add: uriUnreserved_def)
  have p: "getVideos_path ?o = Inr ?p"
    by (simp add: getVideos_path_def Let_def truthy_def or_else_def enc n sort_str_def
        sort_or_date_def page_or_1_def)
  have h: "Map_get (cache init) ?p = None \<and> (\<forall>d. net down_env (url_of down_env ?p) \<noteq> Ok d)"
    by (simp add: init_def Map_get_def down_env_def)
  have a: "getVideos down_env ?o init
     = (Inr (JPage \<lparr>items = [], total = 0, page = 999, pageSize = 24, totalPages = Num 0\<rparr>),
        init\<lparr>requests := [''file:///srv/public/data/categories/fiqh/oldest/page-999.json'']\<rparr>)"
    using getVideos_degrades [of ?o ?p down_env init "Fetch_rejected" "JManifest 0"] p h
    by (simp add: page_or_1_def url_of_def down_env_def init_def)
  have p': "getVideos_path ?o' = Inr ?p'"
    by (simp add: getVideos_path_def Let_def truthy_def n sort_str_def sort_or_date_def
        page_or_1_def)
  have "fst (fetchJson site_env ?p' init) = Inr (JPage example_page)"
    by (simp add: init_def fetchJson_def fetchJson_begin_def fetchJson_end_def Map_get_def
        site_env_def site_files_def url_of_def)
  with p' have b: "fst (getVideos site_env ?o' init) = Inr (JPage example_page)"
    using getVideos_degrades [of ?o' ?p' site_env init "Fetch_rejected" "JPage example_page"]
    by blast
  have "\<not> truthy (o_playlistId ?o'') \<and> \<not> isWellFormed (or_else (o_category ?o'') [])"
    by (simp add: truthy_def or_else_def isWellFormed.simps surrogateAt_def)
  then have c: "getVideos site_env ?o'' init = (Inl URI_error, init)"
    using getVideos_degrades [of ?o'' ?p' site_env init "Fetch_rejected" "JManifest 0"]
    by blast
  from a b c show ?thesis by (intro conjI)
qed

theorem getVideos_degrades_counterexample:
  "getVideos site_env \<lparr>o_page = None, o_sort = None,
                        o_category = Some [CHR 0xED, CHR 0xA0, CHR 0x80],
                        o_playlistId = None\<rparr> init = (Inl URI_error, init)
   \<and> requests init = []"
  by (simp add: getVideos_def getVideos_path_def Let_def truthy_def or_else_def
      encodeURIComponent_lone_surrogate init_def)

lemma find_whiteSpace: "w \<in> set whiteSpace \<Longrightarrow> find (\<lambda>x. prefix x (w @ r)) whiteSpace = Some w"
  unfolding whiteSpace_def by (elim set_ConsD [elim_format] disjE; simp)

lemma trimStart_whiteSpace: "w \<in> set whiteSpace \<Longrightarrow> trimStart (w @ r) = trimStart r"
  by (simp add: trimStart.simps [of "w @ r"] find_whiteSpace)

lemma trimStart_Nil: "trimStart [] = []"
  by (simp add: trimStart.simps [of "[]"] whiteSpace_def)

lemma trimEnd_Nil: "trimEnd [] = []"
  by (simp add: trimEnd.simps [of "[]"] whiteSpace_def)

lemma trim_whiteSpace: "\<forall>w \<in> set ws. w \<in> set whiteSpace \<Longrightarrow> trim (concat ws) = []"
proof -
  assume "\<forall>w \<in> set ws. w \<in> set whiteSpace"
  then have "trimStart (concat ws) = []"
    by (induction ws) (simp_all add: trimStart_Nil trimStart_whiteSpace)
  then show ?thesis by (simp add: trim_def trimEnd_Nil)
qed

text \<open>
  Claim C7. When \<open>query.trim()\<close> is empty, \<open>search\<close> returns the page with no items,
  \<open>total = 0\<close>, \<open>totalPages = 0\<close> and the requested page and page size (1 and 24 when not
  given), and the state it returns is the state it was given: no request is made and
  neither cache changes. Every query made of white space and line terminators only
  (the empty query among them) trims to the empty string.
\<close>

theorem search_blank_query:
  "(trim query = [] \<longrightarrow>
      search e query opts s
        = (Inr \<lparr>items = [], total = 0, page = page_or_1 (so_page opts),
                 pageSize = pageSize_or_24 (so_pageSize opts), totalPages = Num 0\<rparr>, s))
   \<and> ((\<forall>w \<in> set ws. w \<in> set whiteSpace) \<longrightarrow> trim (concat ws) = [])"
  by (simp add: search_def emptyPage_def trim_whiteSpace)

theorem search_blank_query_witness:
  "search down_env [] \<lparr>so_category = None, so_playlistId = None, so_page = None, so_pageSize = None\<rparr> init
     = (Inr \<lparr>items = [], total = 0, page = 1, pageSize = 24, totalPages = Num 0\<rparr>, init)
   \<and> search site_env ''   '' \<lparr>so_category = Some ''tafsir'', so_playlistId = None, so_page = Some 3,
                                so_pageSize = Some 10\<rparr> init
     = (Inr \<lparr>items = [], total = 0, page = 3, pageSize = 10, totalPages = Num 0\<rparr>, init)
   \<and> trim (concat [[CHR 0x09], [CHR 0xC2, CHR 0xA0], [CHR 0x0A]]) = []"
proof -
  have t1: "trim [] = []" by (simp add: trim_def trimStart_Nil trimEnd_Nil)
  have t2: "trim ''   '' = []" by code_simp
  have w: "\<forall>w \<in> set [[CHR 0x09], [CHR 0xC2, CHR 0xA0], [CHR 0x0A]]. w \<in> set whiteSpace"
    by (simp add: whiteSpace_def)
  from search_blank_query [of "[]" down_env _ init "[[CHR 0x09], [CHR 0xC2, CHR 0xA0], [CHR 0x0A]]"]
    search_blank_query [of "''   ''" site_env _ init "[]"] t1 t2 w
  show ?thesis by (simp add: page_or_1_def pageSize_or_24_def)
qed

lemma requests_fetchJson:
  "requests (snd (fetchJson e path s))
     = (if Map_get (cache s) path = None then requests s @ [url_of e path] else requests s)"
  by (cases "net e (url_of e path)")
    (auto simp: fetchJson_def fetchJson_begin_def fetchJson_end_def split: option.splits)

text \<open>
  Claim C8, as amended. The path that \<open>getVideos\<close> loads is a function of the listing
  inputs alone: \<open>/playlists/{id}/{sort}/page-{n}.json\<close> when the playlist id is a non-empty
  string; otherwise \<open>/categories/{category}/{sort}/page-{n}.json\<close>, with the category
  percent-encoded (so the encoded value has no slash), when the category is a non-empty
  string other than \<open>all\<close> and \<open>channel\<close>, and no path at all when the encoding of that
  category throws; otherwise \<open>/videos/{sort}/page-{n}.json\<close>. Here \<open>n\<close> is the page (1 when
  not given) and \<open>sort\<close> is \<open>date\<close>, \<open>oldest\<close> or \<open>views\<close> (\<open>date\<close> when not given).
  \<open>getVideos\<close> requests the URL of exactly that path when the path is not cached, and
  requests nothing when it is, nor when there is no path.
\<close>

theorem getVideos_path_cases:
  "(o_playlistId opts = Some pid \<and> pid \<noteq> [] \<longrightarrow>
      getVideos_path opts
        = Inr (''/playlists/'' @ pid @ ''/'' @ sort_str (sort_or_date (o_sort opts))
                 @ ''/page-'' @ show_int (page_or_1 (o_page opts)) @ ''.json''))
   \<and> (\<not> truthy (o_playlistId opts) \<and> o_category opts = Some c \<and> c \<noteq> []
        \<and> c \<noteq> ''all'' \<and> c \<noteq> ''channel'' \<and> encodeURIComponent c = Inr enc \<longrightarrow>
      getVideos_path opts
        = Inr (''/categories/'' @ enc @ ''/'' @ sort_str (sort_or_date (o_sort opts))
                 @ ''/page-'' @ show_int (page_or_1 (o_page opts)) @ ''.json'')
      \<and> CHR ''/'' \<notin> set enc)
   \<and> (\<not> truthy (o_playlistId opts) \<and> o_category opts = Some c \<and> c \<noteq> []
        \<and> c \<noteq> ''all'' \<and> c \<noteq> ''channel'' \<and> encodeURIComponent c = Inl err \<longrightarrow>
      getVideos_path opts = Inl err)
   \<and> (\<not> truthy (o_playlistId opts)
        \<and> (\<not> truthy (o_category opts) \<or> o_category opts = Some ''all''
             \<or> o_category opts = Some ''channel'') \<longrightarrow>
      getVideos_path opts
        = Inr (''/videos/'' @ sort_str (sort_or_date (o_sort opts))
                 @ ''/page-'' @ show_int (page_or_1 (o_page opts)) @ ''.json''))
   \<and> (getVideos_path opts = Inr path \<longrightarrow>
      requests (snd (getVideos e opts s))
        = (if Map_get (cache s) path = None then requests s @ [url_of e path] else requests s))
   \<and> (getVideos_path opts = Inl err \<longrightarrow> requests (snd (getVideos e opts s)) = requests s)"
proof (intro conjI impI)
  assume "getVideos_path opts = Inr path"
  then show "requests (snd (getVideos e opts s))
       = (if Map_get (cache s) path = None then requests s @ [url_of e path] else requests s)"
    using requests_fetchJson [of e path s]
    by (simp add: getVideos_def split_beta split: sum.splits)
next
  assume "getVideos_path opts = Inl err"
  then show "requests (snd (getVideos e opts s)) = requests s"
    by (simp add: getVideos_def)
next
  assume "\<not> truthy (o_playlistId opts) \<and> o_category opts = Some c \<and> c \<noteq> []
        \<and> c \<noteq> ''all'' \<and> c \<noteq> ''channel'' \<and> encodeURIComponent c = Inr enc"
  then show "CHR ''/'' \<notin> set enc" using encodeURIComponent_no_slash by blast
qed (auto simp: getVideos_path_def Let_def truthy_def or_else_def split: option.splits)

theorem getVideos_path_cases_witness:
  "getVideos_path \<lparr>o_page = Some 2, o_sort = Some Views, o_category = Some ''fiqh'',
                   o_playlistId = Some ''PL1''\<rparr> = Inr ''/playlists/PL1/views/page-2.json''
   \<and> getVideos_path \<lparr>o_page = None, o_sort = Some Oldest, o_category = Some ''a b'',
                     o_playlistId = Some []\<rparr> = Inr ''/categories/a%20b/oldest/page-1.json''
   \<and> getVideos_path \<lparr>o_page = Some 3, o_sort = None, o_category = Some ''channel'',
                     o_playlistId = None\<rparr> = Inr ''/videos/date/page-3.json''
   \<and> getVideos_path \<lparr>o_page = None, o_sort = None,
                     o_category = Some [CHR 0xED, CHR 0xA0, CHR 0x80],
                     o_playlistId = None\<rparr> = Inl URI_error"
proof -
  let ?a = "\<lparr>o_page = Some 2, o_sort = Some Views, o_category = Some ''fiqh'',
             o_playlistId = Some ''PL1''\<rparr>"
  let ?b = "\<lparr>o_page = None, o_sort = Some Oldest, o_category = Some ''a b'',
             o_playlistId = Some []\<rparr>"
  let ?c = "\<lparr>o_page = Some 3, o_sort = None, o_category = Some ''channel'',
             o_playlistId = None\<rparr>"
  let ?d = "\<lparr>o_page = None, o_sort = None, o_category = Some [CHR 0xED, CHR 0xA0, CHR 0x80],
             o_playlistId = None\<rparr>"
  have n: "show_int 2 = ''2''" "show_int 1 = ''1''" "show_int 3 = ''3''" by code_simp+
  have a: "getVideos_path ?a = Inr ''/playlists/PL1/views/page-2.json''"
    using getVideos_path_cases [of ?a "''PL1''" "''x''" "''x''" URI_error "''x''" site_env init]
    by (simp add: n sort_str_def sort_or_date_def page_or_1_def)
  have b: "getVideos_path ?b = Inr ''/categories/a%20b/oldest/page-1.json''"
    using getVideos_path_cases [of ?b "''PL1''" "''a b''" "''a%20b''" URI_error "''x''" site_env init]
    by (simp add: n encodeURIComponent_a_b sort_str_def sort_or_date_def page_or_1_def truthy_def)
  have c: "getVideos_path ?c = Inr ''/videos/date/page-3.json''"
    using getVideos_path_cases [of ?c "''PL1''" "''x''" "''x''" URI_error "''x''" site_env init]
    by (simp add: n sort_str_def sort_or_date_def page_or_1_def truthy_def)
  have d: "getVideos_path ?d = Inl URI_error"
    using getVideos_path_cases [of ?d "''PL1''" "[CHR 0xED, CHR 0xA0, CHR 0x80]" "''x''" URI_error
        "''x''" site_env init]
    by (simp add: encodeURIComponent_lone_surrogate truthy_def)
  from a b c d show ?thesis by (intro conjI)
qed

theorem getVideos_path_cases_counterexample:
  "getVideos_path \<lparr>o_page = Some 2, o_sort = Some Views, o_category = None,
                   o_playlistId = Some ''PL1''\<rparr> = Inr ''/playlists/PL1/views/page-2.json''
   \<and> claimed_listing_path \<lparr>o_page = Some 2, o_sort = Some Views, o_category = None,
                           o_playlistId = Some ''PL1''\<rparr> = Inr ''playlist/PL1/views/page-2''
   \<and> getVideos_path \<lparr>o_page = None, o_sort = None, o_category = Some ''all'',
                     o_playlistId = None\<rparr> = Inr ''/videos/date/page-1.json''
   \<and> claimed_listing_path \<lparr>o_page = None, o_sort = None, o_category = Some ''all'',
                           o_playlistId = None\<rparr> = Inr ''category/all/date/page-1''"
proof -
  have n: "show_int 2 = ''2''" "show_int 1 = ''1''" by code_simp+
  have enc: "encodeURIComponent ''all'' = Inr ''all''"
    by (rule encodeURIComponent_plain) (simp add: uriUnreserved_def)
  show ?thesis
    by (simp add: getVideos_path_def claimed_listing_path_def Let_def truthy_def or_else_def n enc
        sort_str_def sort_or_date_def page_or_1_def)
qed



lemma requests_fetchJson_end [simp]: "requests (snd (fetchJson_end path p s)) = requests s"
  by (simp add: fetchJson_end_def split: pending.splits response.splits)

lemma cache_fetchJson_begin [simp]: "cache (snd (fetchJson_begin e path s)) = cache s"
  by (simp add: fetchJson_begin_def split: option.splits)

lemma fst_fetchJson_end: "fst (fetchJson_end path p s) = fst (fetchJson_end path p t)"
  by (simp add: fetchJson_end_def split: pending.splits response.splits)

lemma fst_fetchJson_begin:
  "cache s = cache t \<Longrightarrow> fst (fetchJson_begin e path s) = fst (fetchJson_begin e path t)"
  by (simp add: fetchJson_begin_def split: option.splits)

lemma cache_neighbour_begin [simp]: "cache (snd (neighbour_begin e nb s)) = cache s"
  by (simp add: neighbour_begin_def split_beta)

lemma requests_neighbour_begin:
  "requests (snd (neighbour_begin e nb s)) = requests s @ neighbour_requests e s nb"
  by (simp add: neighbour_begin_def neighbour_requests_def fetchJson_begin_def split_beta
      split: option.splits)

lemma requests_neighbour_end [simp]: "requests (snd (neighbour_end a s)) = requests s"
  by (simp add: neighbour_end_def getVideo_end_def split_beta
      split: option.splits sum.splits json.splits)

lemma fst_neighbour_begin:
  "cache s = cache t \<Longrightarrow> fst (neighbour_begin e nb s) = fst (neighbour_begin e nb t)"
  using fst_fetchJson_begin [of s t e] by (simp add: neighbour_begin_def split_beta)

lemma neighbour_end_begin:
  "fst (neighbour_end (fst (neighbour_begin e nb s)) t) = neighbour_result e s nb"
proof (cases "truthy nb")
  case False
  then show ?thesis by (simp add: neighbour_begin_def neighbour_end_def neighbour_result_def)
next
  case True
  let ?path = "getVideo_path (or_else nb [])"
  let ?p = "fst (fetchJson_begin e ?path s)"
  have "fst (fetchJson_end ?path ?p t) = fst (fetchJson e ?path s)"
    using fst_fetchJson_end [of ?path ?p t] by (simp add: fetchJson_def split_beta)
  with True show ?thesis
    by (simp add: neighbour_begin_def neighbour_end_def neighbour_result_def getVideo_end_def
        getVideo_def split_beta split: sum.splits json.splits)
qed

lemma loadVideoPage_result:
  assumes "getVideo e vid s = (Some (JVideo v), s1)"
  shows "fst (loadVideoPage e b vid s)
           = Inr (Some (assemble v (neighbour_result e s1 (nav_prev (vd_nav v)))
                          (neighbour_result e s1 (nav_next (vd_nav v)))))"
proof -
  let ?s2 = "snd (neighbour_begin e (nav_prev (vd_nav v)) s1)"
  have "fst (neighbour_begin e (nav_next (vd_nav v)) ?s2)
      = fst (neighbour_begin e (nav_next (vd_nav v)) s1)"
    by (rule fst_neighbour_begin) simp
  then show ?thesis
    using assms by (simp add: loadVideoPage_def split_beta neighbour_end_begin)
qed

lemma loadVideoPage_requests:
  assumes "getVideo e vid s = (Some (JVideo v), s1)"
  shows "requests (snd (loadVideoPage e b vid s))
           = requests s1 @ neighbour_requests e s1 (nav_prev (vd_nav v))
               @ neighbour_requests e s1 (nav_next (vd_nav v))"
proof -
  let ?s2 = "snd (neighbour_begin e (nav_prev (vd_nav v)) s1)"
  have "neighbour_requests e ?s2 nb = neighbour_requests e s1 nb" for nb
    by (simp add: neighbour_requests_def)
  then show ?thesis
    using assms by (simp add: loadVideoPage_def split_beta requests_neighbour_begin)
qed

text \<open>
  Claim C9. Let the detail of the requested video load as \<open>v\<close>, leaving state \<open>s1\<close>.
  Whichever neighbour response arrives first, \<open>loadVideoPage\<close> returns a view model and no
  error. The view model carries the detail, for each of \<open>nav.prev\<close> and \<open>nav.next\<close> what
  \<open>getVideo\<close> of that id gives in \<open>s1\<close>, the playlist name of the detail or, when the
  detail has none, the default name, and \<open>nav.total\<close> and \<open>nav.index\<close> as
  \<open>playlistVideoCount\<close> and \<open>currentIndex\<close>. After the detail, the loader requests exactly
  the neighbours that are given and not cached. A neighbour id that is \<open>null\<close> (or empty)
  gives \<open>null\<close> and no request; a neighbour whose own load fails gives \<open>null\<close>; a
  neighbour that loads as a video detail gives its summary; a neighbour whose file holds
  any other body gives the object of undefined fields.
\<close>

theorem loadVideoPage_neighbours:
  "getVideo e vid s = (Some (JVideo v), s1) \<longrightarrow>
     fst (loadVideoPage e b vid s)
       = Inr (Some \<lparr>pd_video = v,
                    prevVideo = neighbour_result e s1 (nav_prev (vd_nav v)),
                    nextVideo = neighbour_result e s1 (nav_next (vd_nav v)),
                    playlistName = (case v_playlistName v of
                                      None \<Rightarrow> defaultPlaylistName
                                    | Some n \<Rightarrow> if n = [] then defaultPlaylistName else n),
                    playlistVideoCount = nav_total (vd_nav v),
                    currentIndex = nav_index (vd_nav v)\<rparr>)
     \<and> requests (snd (loadVideoPage e b vid s))
         = requests s1 @ neighbour_requests e s1 (nav_prev (vd_nav v))
             @ neighbour_requests e s1 (nav_next (vd_nav v))
     \<and> (\<not> truthy nb \<longrightarrow> neighbour_result e s1 nb = None \<and> neighbour_requests e s1 nb = [])
     \<and> (truthy nb' \<and> fst (getVideo e (or_else nb' []) s1) = None \<longrightarrow>
          neighbour_result e s1 nb' = None)
     \<and> (truthy nb' \<and> fst (getVideo e (or_else nb' []) s1) = Some (JVideo d) \<longrightarrow>
          neighbour_result e s1 nb' = Some (Summary (summary d)))
     \<and> (truthy nb' \<and> fst (getVideo e (or_else nb' []) s1) = Some j \<and> (\<forall>d. j \<noteq> JVideo d) \<longrightarrow>
          neighbour_result e s1 nb' = Some Undefined_fields)"
proof (intro impI conjI)
  assume g: "getVideo e vid s = (Some (JVideo v), s1)"
  show "fst (loadVideoPage e b vid s)
       = Inr (Some \<lparr>pd_video = v,
                    prevVideo = neighbour_result e s1 (nav_prev (vd_nav v)),
                    nextVideo = neighbour_result e s1 (nav_next (vd_nav v)),
                    playlistName = (case v_playlistName v of
                                      None \<Rightarrow> defaultPlaylistName
                                    | Some n \<Rightarrow> if n = [] then defaultPlaylistName else n),
                    playlistVideoCount = nav_total (vd_nav v),
                    currentIndex = nav_index (vd_nav v)\<rparr>)"
    using loadVideoPage_result [OF g, of b]
    by (simp add: assemble_def or_else_def split: option.splits)
  show "requests (snd (loadVideoPage e b vid s))
         = requests s1 @ neighbour_requests e s1 (nav_prev (vd_nav v))
             @ neighbour_requests e s1 (nav_next (vd_nav v))"
    using g by (rule loadVideoPage_requests)
next
  assume "\<not> truthy nb"
  then show "neighbour_result e s1 nb = None" "neighbour_requests e s1 nb = []"
    by (simp_all add: neighbour_result_def neighbour_requests_def)
next
  assume "truthy nb' \<and> fst (getVideo e (or_else nb' []) s1) = None"
  then show "neighbour_result e s1 nb' = None"
    by (simp add: neighbour_result_def)
next
  assume "truthy nb' \<and> fst (getVideo e (or_else nb' []) s1) = Some (JVideo d)"
  then show "neighbour_result e s1 nb' = Some (Summary (summary d))"
    by (simp add: neighbour_result_def)
next
  assume "truthy nb' \<and> fst (getVideo e (or_else nb' []) s1) = Some j \<and> (\<forall>d. j \<noteq> JVideo d)"
  then show "neighbour_result e s1 nb' = Some Undefined_fields"
    by (cases j) (simp_all add: neighbour_result_def)
qed

theorem loadVideoPage_neighbours_witness:
  "fst (loadVideoPage site_env True ''v1'' init)
     = Inr (Some \<lparr>pd_video = detail ''v1'' None (Some ''v2'') 1, prevVideo = None,
                  nextVideo = Some (Summary (summary (detail ''v2'' (Some ''v1'') (Some ''v3'') 2))),
                  playlistName = defaultPlaylistName, playlistVideoCount = 3,
                  currentIndex = 1\<rparr>)
   \<and> requests (snd (loadVideoPage site_env True ''v1'' init))
       = [''/data/video/v1.json'', ''/data/video/v2.json'']
   \<and> fst (loadVideoPage site_env False ''v2'' init)
       = Inr (Some \<lparr>pd_video = detail ''v2'' (Some ''v1'') (Some ''v3'') 2,
                    prevVideo = Some (Summary (summary (detail ''v1'' None (Some ''v2'') 1))),
                    nextVideo = None, playlistName = ''Tafsir'', playlistVideoCount = 3,
                    currentIndex = 2\<rparr>)
   \<and> requests (snd (loadVideoPage site_env False ''v2'' init))
       = [''/data/video/v2.json'', ''/data/video/v1.json'', ''/data/video/v3.json'']
   \<and> fst (loadVideoPage stray_env True ''v2'' init)
       = Inr (Some \<lparr>pd_video = detail ''v2'' (Some ''v1'') (Some ''v3'') 2,
                    prevVideo = Some (Summary (summary (detail ''v1'' None (Some ''v2'') 1))),
                    nextVideo = Some Undefined_fields, playlistName = ''Tafsir'',
                    playlistVideoCount = 3, currentIndex = 2\<rparr>)"
proof -
  let ?d1 = "detail ''v1'' None (Some ''v2'') 1"
  let ?d2 = "detail ''v2'' (Some ''v1'') (Some ''v3'') 2"
  let ?s1 = "init\<lparr>requests := [''/data/video/v1.json''], cache := [(''/video/v1.json'', JVideo ?d1)]\<rparr>"
  let ?s2 = "init\<lparr>requests := [''/data/video/v2.json''], cache := [(''/video/v2.json'', JVideo ?d2)]\<rparr>"
  have g1: "getVideo site_env ''v1'' init = (Some (JVideo ?d1), ?s1)"
    by (simp add: getVideo_def getVideo_path_def fetchJson_def fetchJson_begin_def
        fetchJson_end_def init_def Map_get_def site_env_def site_files_def url_of_def
        cacheSet_def MAX_CACHE_SIZE_def)
  have g2: "getVideo site_env ''v2'' init = (Some (JVideo ?d2), ?s2)"
    by (simp add: getVideo_def getVideo_path_def fetchJson_def fetchJson_begin_def
        fetchJson_end_def init_def Map_get_def site_env_def site_files_def url_of_def
        cacheSet_def MAX_CACHE_SIZE_def)
  have g3: "getVideo stray_env ''v2'' init = (Some (JVideo ?d2), ?s2)"
    by (simp add: getVideo_def getVideo_path_def fetchJson_def fetchJson_begin_def
        fetchJson_end_def init_def Map_get_def stray_env_def site_env_def site_files_def
        url_of_def cacheSet_def MAX_CACHE_SIZE_def)
  have n1: "nav_prev (vd_nav ?d1) = None" "nav_next (vd_nav ?d1) = Some ''v2''"
    "nav_total (vd_nav ?d1) = 3" "nav_index (vd_nav ?d1) = 1" "v_playlistName ?d1 = None"
    by (simp_all add: detail_def)
  have n2: "nav_prev (vd_nav ?d2) = Some ''v1''" "nav_next (vd_nav ?d2) = Some ''v3''"
    "nav_total (vd_nav ?d2) = 3" "nav_index (vd_nav ?d2) = 2" "v_playlistName ?d2 = Some ''Tafsir''"
    by (simp_all add: detail_def)
  have f12: "truthy (Some ''v2'') \<and> fst (getVideo site_env (or_else (Some ''v2'') []) ?s1)
      = Some (JVideo ?d2)"
    by (simp add: truthy_def or_else_def getVideo_def getVideo_path_def
        fetchJson_def fetchJson_begin_def fetchJson_end_def init_def Map_get_def site_env_def
        site_files_def url_of_def)
  have f21: "truthy (Some ''v1'') \<and> fst (getVideo site_env (or_else (Some ''v1'') []) ?s2)
      = Some (JVideo ?d1)"
    by (simp add: truthy_def or_else_def getVideo_def getVideo_path_def
        fetchJson_def fetchJson_begin_def fetchJson_end_def init_def Map_get_def site_env_def
        site_files_def url_of_def)
  have f23: "truthy (Some ''v3'') \<and> fst (getVideo site_env (or_else (Some ''v3'') []) ?s2) = None"
    by (simp add: truthy_def or_else_def getVideo_def getVideo_path_def
        fetchJson_def fetchJson_begin_def fetchJson_end_def init_def Map_get_def site_env_def
        site_files_def url_of_def)
  have f21': "truthy (Some ''v1'') \<and> fst (getVideo stray_env (or_else (Some ''v1'') []) ?s2)
      = Some (JVideo ?d1)"
    by (simp add: truthy_def or_else_def getVideo_def getVideo_path_def
        fetchJson_def fetchJson_begin_def fetchJson_end_def init_def Map_get_def stray_env_def
        site_env_def site_files_def url_of_def)
  have f23': "truthy (Some ''v3'') \<and> fst (getVideo stray_env (or_else (Some ''v3'') []) ?s2)
      = Some (JManifest 2) \<and> (\<forall>d. JManifest 2 \<noteq> JVideo d)"
    by (simp add: truthy_def or_else_def getVideo_def getVideo_path_def
        fetchJson_def fetchJson_begin_def fetchJson_end_def init_def Map_get_def stray_env_def
        site_env_def site_files_def url_of_def)
  have q: "neighbour_requests site_env ?s1 (Some ''v2'') = [''/data/video/v2.json'']"
    "neighbour_requests site_env ?s2 (Some ''v1'') = [''/data/video/v1.json'']"
    "neighbour_requests site_env ?s2 (Some ''v3'') = [''/data/video/v3.json'']"
    by (simp_all add: neighbour_requests_def truthy_def or_else_def getVideo_path_def init_def
        Map_get_def site_env_def url_of_def)
  have absent: "\<not> truthy None" by (simp add: truthy_def)
  note A = loadVideoPage_neighbours [of site_env "''v1''" init ?d1 ?s1 True None "Some ''v2''"
      ?d2 "JVideo ?d2", rule_format, OF g1]
  note B = loadVideoPage_neighbours [of site_env "''v2''" init ?d2 ?s2 False None "Some ''v3''"
      ?d1 "JVideo ?d1", rule_format, OF g2]
  note B' = loadVideoPage_neighbours [of site_env "''v2''" init ?d2 ?s2 False None "Some ''v1''"
      ?d1 "JVideo ?d1", rule_format, OF g2]
  note C = loadVideoPage_neighbours [of stray_env "''v2''" init ?d2 ?s2 True None "Some ''v1''"
      ?d1 "JVideo ?d1", rule_format, OF g3]
  note C' = loadVideoPage_neighbours [of stray_env "''v2''" init ?d2 ?s2 True None "Some ''v3''"
      ?d1 "JManifest 2", rule_format, OF g3]
  from A absent have a0: "neighbour_result site_env ?s1 None = None"
    "neighbour_requests site_env ?s1 None = []" by blast+
  from A f12 have a12: "neighbour_result site_env ?s1 (Some ''v2'') = Some (Summary (summary ?d2))"
    by blast
  from B f23 have b23: "neighbour_result site_env ?s2 (Some ''v3'') = None" by blast
  from B' f21 have b21: "neighbour_result site_env ?s2 (Some ''v1'') = Some (Summary (summary ?d1))"
    by blast
  from C f21' have c21: "neighbour_result stray_env ?s2 (Some ''v1'') = Some (Summary (summary ?d1))"
    by blast
  from C' f23' have c23: "neighbour_result stray_env ?s2 (Some ''v3'') = Some Undefined_fields"
    by blast
  from A have "fst (loadVideoPage site_env True ''v1'' init)
       = Inr (Some \<lparr>pd_video = ?d1,
                    prevVideo = neighbour_result site_env ?s1 (nav_prev (vd_nav ?d1)),
                    nextVideo = neighbour_result site_env ?s1 (nav_next (vd_nav ?d1)),
                    playlistName = (case v_playlistName ?d1 of
                                      None \<Rightarrow> defaultPlaylistName
                                    | Some n \<Rightarrow> if n = [] then defaultPlaylistName else n),
                    playlistVideoCount = nav_total (vd_nav ?d1),
                    currentIndex = nav_index (vd_nav ?d1)\<rparr>)"
    by blast
  then have a1: "fst (loadVideoPage site_env True ''v1'' init)
     = Inr (Some \<lparr>pd_video = ?d1, prevVideo = None, nextVideo = Some (Summary (summary ?d2)),
                  playlistName = defaultPlaylistName, playlistVideoCount = 3,
                  currentIndex = 1\<rparr>)"
    by (simp add: n1 a0 a12)
  from A have "requests (snd (loadVideoPage site_env True ''v1'' init))
         = requests ?s1 @ neighbour_requests site_env ?s1 (nav_prev (vd_nav ?d1))
             @ neighbour_requests site_env ?s1 (nav_next (vd_nav ?d1))"
    by blast
  then have a2: "requests (snd (loadVideoPage site_env True ''v1'' init))
       = [''/data/video/v1.json'', ''/data/video/v2.json'']"
    by (simp add: n1 a0 q)
  from B have "fst (loadVideoPage site_env False ''v2'' init)
       = Inr (Some \<lparr>pd_video = ?d2,
                    prevVideo = neighbour_result site_env ?s2 (nav_prev (vd_nav ?d2)),
                    nextVideo = neighbour_result site_env ?s2 (nav_next (vd_nav ?d2)),
                    playlistName = (case v_playlistName ?d2 of
                                      None \<Rightarrow> defaultPlaylistName
                                    | Some n \<Rightarrow> if n = [] then defaultPlaylistName else n),
                    playlistVideoCount = nav_total (vd_nav ?d2),
                    currentIndex = nav_index (vd_nav ?d2)\<rparr>)"
    by blast
  then have b1: "fst (loadVideoPage site_env False ''v2'' init)
       = Inr (Some \<lparr>pd_video = ?d2, prevVideo = Some (Summary (summary ?d1)),
                    nextVideo = None, playlistName = ''Tafsir'', playlistVideoCount = 3,
                    currentIndex = 2\<rparr>)"
    by (simp add: n2 b23 b21)
  from B have "requests (snd (loadVideoPage site_env False ''v2'' init))
         = requests ?s2 @ neighbour_requests site_env ?s2 (nav_prev (vd_nav ?d2))
             @ neighbour_requests site_env ?s2 (nav_next (vd_nav ?d2))"
    by blast
  then have b2: "requests (snd (loadVideoPage site_env False ''v2'' init))
       = [''/data/video/v2.json'', ''/data/video/v1.json'', ''/data/video/v3.json'']"
    by (simp add: n2 q)
  from C have "fst (loadVideoPage stray_env True ''v2'' init)
       = Inr (Some \<lparr>pd_video = ?d2,
                    prevVideo = neighbour_result stray_env ?s2 (nav_prev (vd_nav ?d2)),
                    nextVideo = neighbour_result stray_env ?s2 (nav_next (vd_nav ?d2)),
                    playlistName = (case v_playlistName ?d2 of
                                      None \<Rightarrow> defaultPlaylistName
                                    | Some n \<Rightarrow> if n = [] then defaultPlaylistName else n),
                    playlistVideoCount = nav_total (vd_nav ?d2),
                    currentIndex = nav_index (vd_nav ?d2)\<rparr>)"
    by blast
  then have c1: "fst (loadVideoPage stray_env True ''v2'' init)
       = Inr (Some \<lparr>pd_video = ?d2, prevVideo = Some (Summary (summary ?d1)),
                    nextVideo = Some Undefined_fields, playlistName = ''Tafsir'',
                    playlistVideoCount = 3, currentIndex = 2\<rparr>)"
    by (simp add: n2 c21 c23)
  from a1 a2 b1 b2 c1 show ?thesis by (intro conjI)
qed

lemma slice_Nil [simp]: "slice [] a b = []"
  by (simp add: slice_def Let_def)

lemma resultPage_Nil:
  "resultPage e q pg sz [] = \<lparr>items = [], total = 0, page = pg, pageSize = sz, totalPages = ceilDiv 0 sz\<rparr>"
  by (simp add: resultPage_def matching_def Let_def)

text \<open>
  Claim C4. Take a category or playlist scope whose entries are not in the search-scope
  cache and whose file is not in the bounded cache, and let the fetch of the file fail (a
  response that is not ok, a rejected fetch, or a body that does not parse). Then
  \<open>getSearchEntries\<close> returns the empty entry list and no error, \<open>search\<close> returns a page
  with no items and \<open>total = 0\<close>, the state afterwards is the old state with the request
  recorded (both caches and the index memo are unchanged, nothing is stored for the
  scope), and a query for the same scope in that state requests the file again, whatever
  the files then are.
\<close>

theorem scoped_search_failure:
  "scope_path c p = Inr (Some path) \<and> Map_get (searchCache s) path = None
     \<and> Map_get (cache s) path = None \<and> (\<forall>d. net e (url_of e path) \<noteq> Ok d) \<longrightarrow>
   getSearchEntries e c p s = (Inr (JEntries []), s\<lparr>requests := requests s @ [url_of e path]\<rparr>)
   \<and> (trim q \<noteq> [] \<longrightarrow>
        search e q \<lparr>so_category = c, so_playlistId = p, so_page = pg, so_pageSize = sz\<rparr> s
          = (Inr \<lparr>items = [], total = 0, page = page_or_1 pg, pageSize = pageSize_or_24 sz,
                   totalPages = ceilDiv 0 (pageSize_or_24 sz)\<rparr>,
             s\<lparr>requests := requests s @ [url_of e path]\<rparr>))
   \<and> cache (snd (getSearchEntries e c p s)) = cache s
   \<and> searchCache (snd (getSearchEntries e c p s)) = searchCache s
   \<and> indexCache (snd (getSearchEntries e c p s)) = indexCache s
   \<and> requests (snd (getSearchEntries e' c p (snd (getSearchEntries e c p s))))
       = requests s @ [url_of e path, url_of e' path]"
proof (intro impI)
  assume a: "scope_path c p = Inr (Some path) \<and> Map_get (searchCache s) path = None
     \<and> Map_get (cache s) path = None \<and> (\<forall>d. net e (url_of e path) \<noteq> Ok d)"
  let ?s' = "s\<lparr>requests := requests s @ [url_of e path]\<rparr>"
  from a obtain err where err: "answer path (net e (url_of e path)) = Inl err"
    using answer_fail by blast
  from a have f: "fetchJson e path s = (Inl err, ?s')"
    by (simp add: fetchJson_miss_fail err)
  from a f have g: "getSearchEntries e c p s = (Inr (JEntries []), ?s')"
    by (simp add: getSearchEntries_def)
  have s: "trim q \<noteq> [] \<longrightarrow>
        search e q \<lparr>so_category = c, so_playlistId = p, so_page = pg, so_pageSize = sz\<rparr> s
          = (Inr \<lparr>items = [], total = 0, page = page_or_1 pg, pageSize = pageSize_or_24 sz,
                   totalPages = ceilDiv 0 (pageSize_or_24 sz)\<rparr>, ?s')"
    by (simp add: search_def Let_def g resultPage_Nil)
  have "requests (snd (fetchJson e' path ?s')) = requests ?s' @ [url_of e' path]"
    using a by (simp add: requests_fetchJson)
  with a have again: "requests (snd (getSearchEntries e' c p ?s'))
      = requests s @ [url_of e path, url_of e' path]"
    by (simp add: getSearchEntries_def split_beta split: sum.splits)
  from g s again show "getSearchEntries e c p s = (Inr (JEntries []), ?s')
   \<and> (trim q \<noteq> [] \<longrightarrow>
        search e q \<lparr>so_category = c, so_playlistId = p, so_page = pg, so_pageSize = sz\<rparr> s
          = (Inr \<lparr>items = [], total = 0, page = page_or_1 pg, pageSize = pageSize_or_24 sz,
                   totalPages = ceilDiv 0 (pageSize_or_24 sz)\<rparr>, ?s'))
   \<and> cache (snd (getSearchEntries e c p s)) = cache s
   \<and> searchCache (snd (getSearchEntries e c p s)) = searchCache s
   \<and> indexCache (snd (getSearchEntries e c p s)) = indexCache s
   \<and> requests (snd (getSearchEntries e' c p (snd (getSearchEntries e c p s))))
       = requests s @ [url_of e path, url_of e' path]"
    by simp
qed

theorem scoped_search_failure_witness:
  "search site_env ''tafsir'' \<lparr>so_category = Some ''fiqh'', so_playlistId = None, so_page = None,
                                so_pageSize = None\<rparr> init
     = (Inr \<lparr>items = [], total = 0, page = 1, pageSize = 24, totalPages = Num 0\<rparr>,
        init\<lparr>requests := [''/data/search/category/fiqh.json'']\<rparr>)
   \<and> requests (snd (getSearchEntries site_env (Some ''fiqh'') None
                       (snd (getSearchEntries site_env (Some ''fiqh'') None init))))
       = [''/data/search/category/fiqh.json'', ''/data/search/category/fiqh.json'']"
proof -
  have sp: "scope_path (Some ''fiqh'') None = Inr (Some ''/search/category/fiqh.json'')"
    by code_simp
  have t: "trim ''tafsir'' \<noteq> []" by code_simp
  have h: "scope_path (Some ''fiqh'') None = Inr (Some ''/search/category/fiqh.json'')
     \<and> Map_get (searchCache init) ''/search/category/fiqh.json'' = None
     \<and> Map_get (cache init) ''/search/category/fiqh.json'' = None
     \<and> (\<forall>d. net site_env (url_of site_env ''/search/category/fiqh.json'') \<noteq> Ok d)"
    by (simp add: sp init_def Map_get_def site_env_def site_files_def url_of_def)
  note A = scoped_search_failure [of "Some ''fiqh''" None "''/search/category/fiqh.json''" init
      site_env "''tafsir''" None None site_env, rule_format, OF h]
  from A t have "search site_env ''tafsir'' \<lparr>so_category = Some ''fiqh'', so_playlistId = None,
        so_page = None, so_pageSize = None\<rparr> init
     = (Inr \<lparr>items = [], total = 0, page = page_or_1 None, pageSize = pageSize_or_24 None,
              totalPages = ceilDiv 0 (pageSize_or_24 None)\<rparr>,
        init\<lparr>requests := requests init @ [url_of site_env ''/search/category/fiqh.json'']\<rparr>)"
    by blast
  then have a: "search site_env ''tafsir'' \<lparr>so_category = Some ''fiqh'', so_playlistId = None,
        so_page = None, so_pageSize = None\<rparr> init
     = (Inr \<lparr>items = [], total = 0, page = 1, pageSize = 24, totalPages = Num 0\<rparr>,
        init\<lparr>requests := [''/data/search/category/fiqh.json'']\<rparr>)"
    by (simp add: page_or_1_def pageSize_or_24_def ceilDiv_def init_def url_of_def site_env_def)
  from A have "requests (snd (getSearchEntries site_env (Some ''fiqh'') None
                       (snd (getSearchEntries site_env (Some ''fiqh'') None init))))
       = requests init @ [url_of site_env ''/search/category/fiqh.json'',
                          url_of site_env ''/search/category/fiqh.json'']"
    by blast
  then have b: "requests (snd (getSearchEntries site_env (Some ''fiqh'') None
                       (snd (getSearchEntries site_env (Some ''fiqh'') None init))))
       = [''/data/search/category/fiqh.json'', ''/data/search/category/fiqh.json'']"
    by (simp add: init_def url_of_def site_env_def)
  from a b show ?thesis by (intro conjI)
qed

lemma getSearchEntries_global_result:
  assumes g: "good e s" and sp: "scope_path c p = Inr None"
    and m: "net e (url_of e ''/search/manifest.json'') = Ok (JManifest n)"
    and ch: "\<forall>i \<in> {1..n}. net e (url_of e (chunk_path i)) = Ok (JChunk (chunk i))"
  shows "fst (getSearchEntries e c p s) = Inr (JEntries (concat (map chunk [1..n])))"
proof -
  obtain r s' where f: "fetchJson e ''/search/manifest.json'' s = (r, s')"
    by (cases "fetchJson e ''/search/manifest.json'' s")
  from fetchJson_good [OF g _ f] m have g': "good e s'" and r: "r = Inr (JManifest n)"
    by (simp_all add: answer_def)
  show ?thesis
  proof (cases "Map_get (searchCache s') ''__all__''")
    case (Some x)
    from g' have "all_agrees e (searchCache s')" by (simp add: good_def)
    with Some m ch have "x = JEntries (concat (map chunk [1..n]))"
      unfolding all_agrees_def by blast
    with sp f r Some show ?thesis by (simp add: getSearchEntries_def)
  next
    case None
    from loadChunks_result [OF g' ch, of "[]"]
    have "fst (loadChunks e 1 n [] s') = Inr (concat (map chunk [1..n]))" by simp
    with sp f r None show ?thesis
      by (simp add: getSearchEntries_def split_beta)
  qed
qed

lemma take_min_length: "take (min a (length ys)) ys = take a ys"
  by (simp add: min_def)

lemma slice_page:
  assumes "1 \<le> sz" and "1 \<le> pg"
  shows "slice xs ((pg - 1) * sz) ((pg - 1) * sz + sz) = take (nat sz) (drop (nat ((pg - 1) * sz)) xs)"
proof -
  define st where "st = (pg - 1) * sz"
  from assms have st: "0 \<le> st" by (simp add: st_def)
  show ?thesis
  proof (cases "st < int (length xs)")
    case True
    with st assms(1) have "slice xs st (st + sz)
        = take (nat (min (st + sz) (int (length xs)) - st)) (drop (nat st) xs)"
      by (simp add: slice_def Let_def min_def)
    also have "nat (min (st + sz) (int (length xs)) - st) = min (nat sz) (length (drop (nat st) xs))"
      using True st assms(1) by (simp add: min_def) linarith
    finally have "slice xs st (st + sz)
        = take (min (nat sz) (length (drop (nat st) xs))) (drop (nat st) xs)" .
    then show ?thesis by (simp only: take_min_length st_def)
  next
    case False
    with st assms(1) show ?thesis
      unfolding st_def [symmetric] by (simp add: slice_def Let_def min_def)
  qed
qed

lemma slice_page_zero: "1 \<le> sz \<Longrightarrow> slice xs ((0 - 1) * sz) ((0 - 1) * sz + sz) = []"
  by (simp add: slice_def Let_def)

lemma slice_size_zero: "slice xs a (a + 0) = []"
  by (simp add: slice_def Let_def)

lemma ceilDiv_pos:
  assumes "1 \<le> sz"
  shows "\<exists>tp. ceilDiv a sz = Num tp \<and> (tp - 1) * sz < a \<and> a \<le> tp * sz"
proof -
  define d where "d = (- a) div sz"
  define r where "r = (- a) mod sz"
  have eq: "- a = d * sz + r" by (simp add: d_def r_def)
  from assms have r: "0 \<le> r" "r < sz" by (simp_all add: r_def)
  have "((- d) - 1) * sz < a"
    using eq r by (simp add: algebra_simps)
  moreover have "a \<le> (- d) * sz"
    using eq r by (simp add: algebra_simps)
  moreover from assms have "ceilDiv a sz = Num (- d)" by (simp add: ceilDiv_def d_def)
  ultimately show ?thesis by blast
qed

lemma page_in_range:
  assumes "1 \<le> sz" and "(tp - 1) * sz < a" and "a \<le> tp * sz"
  shows "pg \<le> tp \<longleftrightarrow> (pg - 1) * sz < (a::int)"
proof
  assume "pg \<le> tp"
  then have "(pg - 1) * sz \<le> (tp - 1) * sz" using assms(1) by (intro mult_right_mono) simp_all
  with assms(2) show "(pg - 1) * sz < a" by simp
next
  assume lt: "(pg - 1) * sz < a"
  show "pg \<le> tp"
  proof (rule ccontr)
    assume "\<not> pg \<le> tp"
    then have "tp \<le> pg - 1" by simp
    then have "tp * sz \<le> (pg - 1) * sz" using assms(1) by (intro mult_right_mono) simp_all
    with assms(3) lt show False by simp
  qed
qed

lemma length_page:
  assumes "1 \<le> sz" and "1 \<le> pg"
  shows "int (length (take (nat sz) (drop (nat ((pg - 1) * sz)) xs)))
           = (if (pg - 1) * sz < int (length xs) then min sz (int (length xs) - sz * (pg - 1)) else 0)"
proof -
  from assms have "0 \<le> (pg - 1) * sz" by simp
  with assms(1) show ?thesis by (simp add: min_def mult.commute) linarith
qed

text \<open>
  Claim C2, as amended. Let the files be fixed, let the manifest declare \<open>n\<close> chunks and
  let chunks 1 to \<open>n\<close> load with entry lists \<open>chunk 1, \<dots>, chunk n\<close>. After any sequence
  of calls of the exported functions, a search in the global scope with a query that does
  not trim to the empty string, a page \<open>\<ge> 0\<close> and a page size \<open>\<ge> 1\<close> searches the
  concatenation of the chunks in ascending order; \<open>total\<close> is the number of entries whose
  lower-cased title contains the lower-cased query; the matches keep the order of the
  entries (a filter); \<open>totalPages\<close> is the least \<open>tp\<close> with \<open>total \<le> tp * pageSize\<close>, that is
  \<open>ceil(total / pageSize)\<close>; for a page \<open>\<ge> 1\<close> the items are the matches from position
  \<open>(page - 1) * pageSize\<close> on, at most \<open>pageSize\<close> of them, converted to videos; and the
  number of items is \<open>min(pageSize, total - pageSize * (page - 1))\<close> when
  \<open>1 \<le> page \<le> totalPages\<close> and 0 otherwise.
\<close>

theorem global_search_pages:
  "scope_path (so_category opts) (so_playlistId opts) = Inr None \<and> trim query \<noteq> []
   \<and> net e (url_of e ''/search/manifest.json'') = Ok (JManifest n)
   \<and> (\<forall>i \<in> {1..n}. net e (url_of e (chunk_path i)) = Ok (JChunk (chunk i)))
   \<and> 0 \<le> page_or_1 (so_page opts) \<and> 1 \<le> pageSize_or_24 (so_pageSize opts) \<longrightarrow>
   (\<exists>r tp.
      fst (search e query opts (run e calls init)) = Inr r
      \<and> fst (getSearchEntries e (so_category opts) (so_playlistId opts) (run e calls init))
          = Inr (JEntries (concat (map chunk [1..n])))
      \<and> matching e query (concat (map chunk [1..n]))
          = filter (\<lambda>x. js_includes (toLowerCase e (e_t x)) (toLowerCase e query))
              (concat (map chunk [1..n]))
      \<and> total r = int (length (matching e query (concat (map chunk [1..n]))))
      \<and> page r = page_or_1 (so_page opts)
      \<and> pageSize r = pageSize_or_24 (so_pageSize opts)
      \<and> totalPages r = Num tp
      \<and> (tp - 1) * pageSize r < total r \<and> total r \<le> tp * pageSize r
      \<and> (1 \<le> page r \<longrightarrow>
           items r = map toVideo (take (nat (pageSize r))
                       (drop (nat ((page r - 1) * pageSize r))
                         (matching e query (concat (map chunk [1..n]))))))
      \<and> int (length (items r))
          = (if 1 \<le> page r \<and> page r \<le> tp
             then min (pageSize r) (total r - pageSize r * (page r - 1)) else 0))"
proof (intro impI)
  assume a: "scope_path (so_category opts) (so_playlistId opts) = Inr None \<and> trim query \<noteq> []
   \<and> net e (url_of e ''/search/manifest.json'') = Ok (JManifest n)
   \<and> (\<forall>i \<in> {1..n}. net e (url_of e (chunk_path i)) = Ok (JChunk (chunk i)))
   \<and> 0 \<le> page_or_1 (so_page opts) \<and> 1 \<le> pageSize_or_24 (so_pageSize opts)"
  let ?s = "run e calls init"
  let ?pg = "page_or_1 (so_page opts)"
  let ?sz = "pageSize_or_24 (so_pageSize opts)"
  let ?entries = "concat (map chunk [1..n])"
  let ?m = "matching e query ?entries"
  let ?r = "resultPage e query ?pg ?sz ?entries"
  have g: "good e ?s" by (rule run_good [OF good_init])
  from a have sp: "scope_path (so_category opts) (so_playlistId opts) = Inr None"
    and m: "net e (url_of e ''/search/manifest.json'') = Ok (JManifest n)"
    and ch: "\<forall>i \<in> {1..n}. net e (url_of e (chunk_path i)) = Ok (JChunk (chunk i))"
    and pg: "0 \<le> ?pg" and sz: "1 \<le> ?sz" and q: "trim query \<noteq> []"
    by blast+
  have ge: "fst (getSearchEntries e (so_category opts) (so_playlistId opts) ?s)
      = Inr (JEntries ?entries)"
    using g sp m ch by (rule getSearchEntries_global_result)
  with q have res: "fst (search e query opts ?s) = Inr ?r"
    by (simp add: search_def Let_def split_beta)
  obtain tp where tp: "ceilDiv (int (length ?m)) ?sz = Num tp"
    "(tp - 1) * ?sz < int (length ?m)" "int (length ?m) \<le> tp * ?sz"
    using ceilDiv_pos [OF sz] by blast
  have fields: "total ?r = int (length ?m)" "page ?r = ?pg" "pageSize ?r = ?sz"
    "totalPages ?r = Num tp"
    "items ?r = map toVideo (slice ?m ((?pg - 1) * ?sz) ((?pg - 1) * ?sz + ?sz))"
    by (simp_all add: resultPage_def Let_def tp(1))
  have it: "items ?r = map toVideo (take (nat ?sz) (drop (nat ((?pg - 1) * ?sz)) ?m))"
    if "1 \<le> ?pg"
    using that sz by (simp add: fields(5) slice_page)
  have len: "int (length (items ?r))
      = (if 1 \<le> ?pg \<and> ?pg \<le> tp then min ?sz (int (length ?m) - ?sz * (?pg - 1)) else 0)"
  proof (cases "1 \<le> ?pg")
    case True
    have "?pg \<le> tp \<longleftrightarrow> (?pg - 1) * ?sz < int (length ?m)"
      using sz tp(2,3) by (rule page_in_range)
    with True show ?thesis
      using length_page [OF sz True, of ?m] by (simp add: it)
  next
    case False
    with pg have z: "?pg = 0" by simp
    have "items ?r = map toVideo (slice ?m ((0 - 1) * ?sz) ((0 - 1) * ?sz + ?sz))"
      using fields(5) by (simp only: z)
    then have "items ?r = []" by (simp only: slice_page_zero [OF sz] list.map)
    with z show ?thesis by simp
  qed
  have mt: "?m = filter (\<lambda>x. js_includes (toLowerCase e (e_t x)) (toLowerCase e query)) ?entries"
    by (simp add: matching_def Let_def)
  show "\<exists>r tp.
      fst (search e query opts ?s) = Inr r
      \<and> fst (getSearchEntries e (so_category opts) (so_playlistId opts) ?s)
          = Inr (JEntries ?entries)
      \<and> ?m = filter (\<lambda>x. js_includes (toLowerCase e (e_t x)) (toLowerCase e query)) ?entries
      \<and> total r = int (length ?m)
      \<and> page r = ?pg
      \<and> pageSize r = ?sz
      \<and> totalPages r = Num tp
      \<and> (tp - 1) * pageSize r < total r \<and> total r \<le> tp * pageSize r
      \<and> (1 \<le> page r \<longrightarrow>
           items r = map toVideo (take (nat (pageSize r))
                       (drop (nat ((page r - 1) * pageSize r)) ?m)))
      \<and> int (length (items r))
          = (if 1 \<le> page r \<and> page r \<le> tp
             then min (pageSize r) (total r - pageSize r * (page r - 1)) else 0)"
  proof (intro exI [of _ ?r] exI [of _ tp] conjI impI)
    show "fst (search e query opts ?s) = Inr ?r" by (rule res)
    show "fst (getSearchEntries e (so_category opts) (so_playlistId opts) ?s)
          = Inr (JEntries ?entries)" by (rule ge)
    show "?m = filter (\<lambda>x. js_includes (toLowerCase e (e_t x)) (toLowerCase e query)) ?entries"
      by (rule mt)
    show "total ?r = int (length ?m)" by (rule fields(1))
    show "page ?r = ?pg" by (rule fields(2))
    show "pageSize ?r = ?sz" by (rule fields(3))
    show "totalPages ?r = Num tp" by (rule fields(4))
    show "(tp - 1) * pageSize ?r < total ?r" using tp(2) by (simp only: fields)
    show "total ?r \<le> tp * pageSize ?r" using tp(3) by (simp only: fields)
    show "items ?r = map toVideo (take (nat (pageSize ?r))
                       (drop (nat ((page ?r - 1) * pageSize ?r)) ?m))"
      if "1 \<le> page ?r"
      using that it by (simp only: fields(2,3))
    show "int (length (items ?r))
          = (if 1 \<le> page ?r \<and> page ?r \<le> tp
             then min (pageSize ?r) (total ?r - pageSize ?r * (page ?r - 1)) else 0)"
      using len by (simp only: fields(1,2,3))
  qed
qed

lemma video_page_eqI:
  "items r = i \<Longrightarrow> total r = t \<Longrightarrow> page r = p \<Longrightarrow> pageSize r = z \<Longrightarrow> totalPages r = tp \<Longrightarrow>
   (r :: video_page) = \<lparr>items = i, total = t, page = p, pageSize = z, totalPages = tp\<rparr>"
  by (cases r) simp

theorem global_search_pages_witness:
  "fst (search site_env ''TAFSIR'' (global_opts (Some 2) (Some 1)) (run site_env [GetIndex] init))
     = Inr \<lparr>items = [toVideo (entry ''c'' ''Tafsir An-Nisa'')], total = 2, page = 2,
             pageSize = 1, totalPages = Num 2\<rparr>"
proof -
  let ?opts = "global_opts (Some 2) (Some 1)"
  let ?entries = "concat (map site_chunk [1..2])"
  have paths: "chunk_path 1 = ''/search/chunk-1.json''" "chunk_path 2 = ''/search/chunk-2.json''"
    by code_simp+
  have ch: "\<forall>i \<in> {1..2}. net site_env (url_of site_env (chunk_path i)) = Ok (JChunk (site_chunk i))"
  proof
    fix i :: int
    assume "i \<in> {1..2}"
    then have "i = 1 \<or> i = 2" by auto
    then show "net site_env (url_of site_env (chunk_path i)) = Ok (JChunk (site_chunk i))"
      by (auto simp: paths site_env_def site_files_def url_of_def site_chunk_def)
  qed
  have h: "scope_path (so_category ?opts) (so_playlistId ?opts) = Inr None \<and> trim ''TAFSIR'' \<noteq> []
   \<and> net site_env (url_of site_env ''/search/manifest.json'') = Ok (JManifest 2)
   \<and> (\<forall>i \<in> {1..2}. net site_env (url_of site_env (chunk_path i)) = Ok (JChunk (site_chunk i)))
   \<and> 0 \<le> page_or_1 (so_page ?opts) \<and> 1 \<le> pageSize_or_24 (so_pageSize ?opts)"
  proof (intro conjI)
    show "scope_path (so_category ?opts) (so_playlistId ?opts) = Inr None"
      by (simp add: global_opts_def scope_path_def truthy_def)
    show "trim ''TAFSIR'' \<noteq> []" by code_simp
    show "net site_env (url_of site_env ''/search/manifest.json'') = Ok (JManifest 2)"
      by (simp add: site_env_def site_files_def url_of_def)
    show "\<forall>i \<in> {1..2}. net site_env (url_of site_env (chunk_path i)) = Ok (JChunk (site_chunk i))"
      by (rule ch)
    show "0 \<le> page_or_1 (so_page ?opts)" "1 \<le> pageSize_or_24 (so_pageSize ?opts)"
      by (simp_all add: global_opts_def page_or_1_def pageSize_or_24_def)
  qed
  have m: "matching site_env ''TAFSIR'' ?entries
      = [entry ''a'' ''Tafsir Al-Baqarah'', entry ''c'' ''Tafsir An-Nisa'']"
    by code_simp
  from global_search_pages [of ?opts "''TAFSIR''" site_env 2 site_chunk "[GetIndex]", rule_format, OF h]
  obtain r tp where r: "fst (search site_env ''TAFSIR'' ?opts (run site_env [GetIndex] init)) = Inr r"
    and t: "total r = int (length (matching site_env ''TAFSIR'' ?entries))"
    and p: "page r = page_or_1 (so_page ?opts)"
    and z: "pageSize r = pageSize_or_24 (so_pageSize ?opts)"
    and tp: "totalPages r = Num tp" "(tp - 1) * pageSize r < total r" "total r \<le> tp * pageSize r"
    and it: "1 \<le> page r \<longrightarrow>
           items r = map toVideo (take (nat (pageSize r))
                       (drop (nat ((page r - 1) * pageSize r))
                         (matching site_env ''TAFSIR'' ?entries)))"
    by blast
  from p have p': "page r = 2" by (simp add: global_opts_def page_or_1_def)
  from z have z': "pageSize r = 1" by (simp add: global_opts_def pageSize_or_24_def)
  from t have t': "total r = 2" by (simp add: m)
  from tp(2,3) have "tp = 2" by (simp add: z' t')
  with tp(1) have tp': "totalPages r = Num 2" by simp
  from it have it': "items r = [toVideo (entry ''c'' ''Tafsir An-Nisa'')]"
    by (simp add: p' z' m)
  from it' t' p' z' tp' have "r = \<lparr>items = [toVideo (entry ''c'' ''Tafsir An-Nisa'')], total = 2,
      page = 2, pageSize = 1, totalPages = Num 2\<rparr>"
    by (rule video_page_eqI)
  with r show ?thesis by simp
qed

theorem global_search_pages_counterexample:
  "fst (search site_env ''tafsir'' (global_opts (Some (- 1)) (Some 1)) init)
     = Inr \<lparr>items = [toVideo (entry ''a'' ''Tafsir Al-Baqarah'')], total = 2, page = - 1,
             pageSize = 1, totalPages = Num 2\<rparr>
   \<and> fst (search site_env ''tafsir'' (global_opts (Some 1) (Some (- 1))) init)
     = Inr \<lparr>items = [toVideo (entry ''a'' ''Tafsir Al-Baqarah'')], total = 2, page = 1,
             pageSize = - 1, totalPages = Num (- 2)\<rparr>
   \<and> claimed_item_count 2 1 (- 1) 2 = 0
   \<and> claimed_item_count 2 (- 1) 1 (- 2) = 0"
  by code_simp

lemma searchCache_loads [simp]: "searchCache (loads e ps s) = searchCache s"
  by (induction ps arbitrary: s) simp_all

lemma requests_loads_prefix: "\<exists>more. requests (loads e ps s) = requests s @ more"
proof (induction ps arbitrary: s)
  case Nil
  then show ?case by simp
next
  case (Cons p ps)
  from Cons [of "snd (fetchJson e p s)"] show ?case
    by (auto simp: requests_fetchJson)
qed

lemma a_ids_letters: "i \<in> set (a_ids n) \<Longrightarrow> set i \<subseteq> {CHR ''a''}"
  by (auto simp: a_ids_def)

lemma scoped_search_reuses_cache:
  "scope_path c p = Inr (Some path) \<Longrightarrow> Map_get (searchCache s) path = Some x \<Longrightarrow>
   getSearchEntries e c p s = (Inr x, s)"
  by (simp add: getSearchEntries_def)

lemma global_search_reuses_cache:
  "scope_path c p = Inr None \<Longrightarrow> Map_get (searchCache s) ''__all__'' = Some x \<Longrightarrow>
   Map_get (cache s) ''/search/manifest.json'' = Some m \<Longrightarrow>
   getSearchEntries e c p s = (Inr x, s)"
  by (simp add: getSearchEntries_def fetchJson_hit)

text \<open>
  Claim C3 at a state where the global scope is loaded and the manifest has left the
  bounded cache: a global search, then a hundred videos, then the same search again. The
  entries of the global scope are then in the search-scope cache, and the second search
  requests the manifest once more.
\<close>

theorem global_scope_refetches_manifest:
  "Map_get (searchCache (run catalogue_env browse_calls init)) ''__all__''
     = Some (JEntries [entry ''a'' ''Tafsir Al-Baqarah'', entry ''b'' ''Intro'',
                       entry ''c'' ''Tafsir An-Nisa''])
   \<and> requests (snd (search catalogue_env ''tafsir'' (global_opts None None)
                       (run catalogue_env browse_calls init)))
       = requests (run catalogue_env browse_calls init) @ [''/data/search/manifest.json'']"
proof -
  let ?e = catalogue_env
  let ?g = "global_opts None None"
  let ?all = "JEntries [entry ''a'' ''Tafsir Al-Baqarah'', entry ''b'' ''Intro'',
                        entry ''c'' ''Tafsir An-Nisa'']"
  let ?s1 = "snd (search ?e ''tafsir'' ?g init)"
  let ?ps = "map getVideo_path hundred_ids"
  let ?s2 = "loads ?e ?ps ?s1"
  let ?d = "JVideo (detail ''x'' None None 1)"
  have keys1: "Map_keys (cache ?s1)
      = [''/search/manifest.json'', ''/search/chunk-1.json'', ''/search/chunk-2.json'']"
    by code_simp
  have sc1: "searchCache ?s1 = [(''__all__'', ?all)]" by code_simp
  have run: "run ?e browse_calls init = ?s2"
    by (simp add: browse_calls_def run_GetVideo)
  have inv: "cache_inv (cache ?s1)"
    using search_good [OF good_init, of ?e "''tafsir''" ?g] by (simp only: good_def)
  have "inj getVideo_path" by (rule injI) (simp add: getVideo_path_def)
  then have d: "distinct ?ps" using hundred_ids(1) by (simp add: distinct_map inj_on_def)
  have ok: "\<forall>p \<in> set ?ps. net ?e (url_of ?e p) = Ok ?d"
  proof
    fix p assume "p \<in> set ?ps"
    then obtain i where i: "i \<in> set hundred_ids" and p: "p = ''/video/'' @ i @ ''.json''"
      by (auto simp: getVideo_path_def)
    have "map_of site_files (''/data/video/'' @ i @ ''.json'') \<noteq> None \<longrightarrow> i = ''v1'' \<or> i = ''v2''"
      by (auto simp: site_files_def)
    moreover from i have "set i \<subseteq> {CHR ''a''}"
      unfolding hundred_ids_def by (rule a_ids_letters)
    then have "i \<noteq> ''v1''" "i \<noteq> ''v2''" by auto
    ultimately have "map_of site_files (''/data/video/'' @ i @ ''.json'') = None" by blast
    then show "net ?e (url_of ?e p) = Ok ?d"
      by (simp add: p catalogue_env_def url_of_def)
  qed
  have fresh: "set ?ps \<inter> set (Map_keys (cache ?s1)) = {}"
    by (auto simp: keys1 getVideo_path_def)
  have ne: "[] \<notin> set ?ps" by (auto simp: getVideo_path_def)
  have len1: "length (cache ?s1) = 3"
    using arg_cong [OF keys1, of length] by (simp add: Map_keys_def)
  have "cache ?s2 = drop (length (cache ?s1) + length ?ps - MAX_CACHE_SIZE)
                      (cache ?s1 @ map (\<lambda>p. (p, ?d)) ?ps)"
    using ok d fresh inv ne by (rule loads_fifo)
  also have "\<dots> = map (\<lambda>p. (p, ?d)) ?ps"
    by (simp add: len1 hundred_ids(2) MAX_CACHE_SIZE_def)
  finally have c2: "cache ?s2 = map (\<lambda>p. (p, ?d)) ?ps" .
  have miss: "Map_get (cache ?s2) ''/search/manifest.json'' = None"
    by (auto simp: c2 Map_get_None Map_keys_def getVideo_path_def comp_def)
  have m: "net ?e (url_of ?e ''/search/manifest.json'') = Ok (JManifest 2)"
    by (simp add: catalogue_env_def site_files_def url_of_def)
  have sc2: "searchCache ?s2 = [(''__all__'', ?all)]" by (simp add: sc1)
  have t: "trim ''tafsir'' \<noteq> []" by code_simp
  have sp: "scope_path (so_category ?g) (so_playlistId ?g) = Inr None"
    by (simp add: global_opts_def scope_path_def truthy_def)
  let ?s3 = "?s2\<lparr>requests := requests ?s2 @ [url_of ?e ''/search/manifest.json''],
                   cache := cacheSet ''/search/manifest.json'' (JManifest 2) (cache ?s2)\<rparr>"
  have f: "fetchJson ?e ''/search/manifest.json'' ?s2 = (Inr (JManifest 2), ?s3)"
    using miss m by (rule fetchJson_miss_ok)
  have "Map_get (searchCache ?s3) ''__all__'' = Some ?all"
    by (simp add: sc1 Map_get_def)
  with sp f have "getSearchEntries ?e (so_category ?g) (so_playlistId ?g) ?s2 = (Inr ?all, ?s3)"
    by (simp add: getSearchEntries_def)
  with t have "requests (snd (search ?e ''tafsir'' ?g ?s2))
      = requests ?s2 @ [url_of ?e ''/search/manifest.json'']"
    by (simp add: search_def Let_def)
  then have "requests (snd (search ?e ''tafsir'' ?g ?s2))
      = requests ?s2 @ [''/data/search/manifest.json'']"
    by (simp add: url_of_def catalogue_env_def)
  moreover have "Map_get (searchCache ?s2) ''__all__'' = Some ?all"
    by (simp add: sc1 Map_get_def)
  ultimately show ?thesis by (simp only: run) 
qed

end
